theory Spec2Isabelle
  imports Main "HOL-Library.Monad_Syntax"
begin

section \<open>Strings\<close>

text \<open>
  Go strings are byte sequences; they are modelled as \<open>string\<close>. The line feed and the
  tabulator are written as character codes.
\<close>

definition LF :: char where
  "LF = CHR 0x0A"

definition TAB :: char where
  "TAB = CHR 0x09"

text \<open>\<^verbatim>\<open>strings.Join(elems, sep)\<close>: the elements with \<open>sep\<close> between neighbours.\<close>

fun strings_Join :: "string list \<Rightarrow> string \<Rightarrow> string" where
  "strings_Join [] sep = []"
| "strings_Join [x] sep = x"
| "strings_Join (x # y # ys) sep = x @ sep @ strings_Join (y # ys) sep"

text \<open>The verb \<^verbatim>\<open>%d\<close> of \<^verbatim>\<open>fmt\<close>: an integer in decimal, with a minus sign when negative.\<close>

fun show_nat :: "nat \<Rightarrow> string" where
  "show_nat n =
     (if n < 10 then [''0123456789'' ! n]
      else show_nat (n div 10) @ [''0123456789'' ! (n mod 10)])"

definition show_int :: "int \<Rightarrow> string" where
  "show_int i = (if i < 0 then CHR ''-'' # show_nat (nat (- i)) else show_nat (nat i))"

text \<open>The verb \<^verbatim>\<open>%v\<close> on an error: its message, or \<^verbatim>\<open><nil>\<close> for the nil error.\<close>

definition show_error :: "string option \<Rightarrow> string" where
  "show_error err = (case err of None \<Rightarrow> ''<nil>'' | Some msg \<Rightarrow> msg)"

section \<open>Package chain and the flag table\<close>

text \<open>
  Modelled from the spec: package \<open>chain\<close> (the type \<open>ChainBuilder\<close>, its methods
  \<open>String\<close> and \<open>Build\<close>, and \<open>NewChain\<close>) and the rule renderer are not part of
  the source. The spec takes a rule as an opaque unit of ruleset text with its own
  renderer, which in verbose mode may produce extra lines: a rule is the lines it renders
  to in each mode. A chain is a name and its rules in insertion order; it is created
  empty; its \<open>Build\<close> renders the rules in insertion order.
\<close>

datatype Rule = Rule (render: "bool \<Rightarrow> string list")

record ChainBuilder =
  cb_name :: string
  cb_commands :: "Rule list"

definition NewChain :: "string \<Rightarrow> ChainBuilder" where
  "NewChain n = \<lparr>cb_name = n, cb_commands = []\<rparr>"

definition ChainBuilder_String :: "ChainBuilder \<Rightarrow> string" where
  "ChainBuilder_String c = cb_name c"

definition ChainBuilder_Build :: "ChainBuilder \<Rightarrow> bool \<Rightarrow> string list" where
  "ChainBuilder_Build c verbose = concat (map (\<lambda>r. render r verbose) (cb_commands c))"

text \<open>
  The table \<open>Flags\<close> of package \<open>consts\<close> is not part of the source either; it is a
  parameter of the model, of Go type \<^verbatim>\<open>map[string]map[bool]string\<close>. Indexing a Go map
  at a missing key gives the zero value: the nil map, then the empty string.
\<close>

type_synonym flag_table = "string \<rightharpoonup> (bool \<rightharpoonup> string)"

definition flag_index :: "flag_table \<Rightarrow> string \<Rightarrow> bool \<Rightarrow> string" where
  "flag_index Flags k verbose =
     (case Flags k of
        None \<Rightarrow> []
      | Some m \<Rightarrow> (case m verbose of None \<Rightarrow> [] | Some s \<Rightarrow> s))"

section \<open>Package table\<close>

record TableBuilder =
  tb_name :: string
  tb_newChains :: "ChainBuilder list"
  tb_chains :: "ChainBuilder list"

text \<open>
  \<open>TableBuilder.Build\<close>, first half: the two loops, which fill \<open>newChainLines\<close> and
  \<open>ruleLines\<close>. Each loop is a fold whose accumulator is the slice (or pair of slices)
  the loop appends to.
\<close>

definition Build_chains_loop :: "ChainBuilder list \<Rightarrow> bool \<Rightarrow> string list \<Rightarrow> string list" where
  "Build_chains_loop cs verbose ruleLines =
     fold (\<lambda>c ruleLines. ruleLines @ ChainBuilder_Build c verbose) cs ruleLines"

definition Build_newChains_loop ::
  "flag_table \<Rightarrow> ChainBuilder list \<Rightarrow> bool \<Rightarrow> string list \<times> string list
     \<Rightarrow> string list \<times> string list" where
  "Build_newChains_loop Flags cs verbose acc =
     fold (\<lambda>c (newChainLines, ruleLines).
             (newChainLines @ [flag_index Flags ''new-chain'' verbose @ '' '' @ ChainBuilder_String c],
              ruleLines @ ChainBuilder_Build c verbose))
          cs acc"

definition Build_lines :: "flag_table \<Rightarrow> TableBuilder \<Rightarrow> bool \<Rightarrow> string list \<times> string list" where
  "Build_lines Flags b verbose =
     Build_newChains_loop Flags (tb_newChains b) verbose
       ([], Build_chains_loop (tb_chains b) verbose [])"

text \<open>
  Second half: the comment lines of verbose mode, the omission of a group whose joined
  text is empty, and the final join.
\<close>

definition Build_assemble :: "string \<Rightarrow> string list \<times> string list \<Rightarrow> bool \<Rightarrow> string" where
  "Build_assemble tname groups verbose =
     (let tableLine = ''* '' @ tname;
          newChainLines0 = fst groups;
          ruleLines0 = snd groups;
          newChainLines =
            (if verbose \<and> length newChainLines0 > 0
             then [''# Custom Chains:''] @ newChainLines0 else newChainLines0);
          ruleLines =
            (if verbose \<and> length ruleLines0 > 0
             then [''# Rules:''] @ ruleLines0 else ruleLines0);
          lines0 = [tableLine];
          newChains = strings_Join newChainLines [LF];
          lines1 = (if newChains \<noteq> [] then lines0 @ [newChains] else lines0);
          rules = strings_Join ruleLines [LF];
          lines2 = (if rules \<noteq> [] then lines1 @ [rules] else lines1);
          lines3 = lines2 @ [''COMMIT'']
      in if verbose then strings_Join lines3 [LF, LF] else strings_Join lines3 [LF])"

definition TableBuilder_Build :: "flag_table \<Rightarrow> TableBuilder \<Rightarrow> bool \<Rightarrow> string" where
  "TableBuilder_Build Flags b verbose =
     Build_assemble (tb_name b) (Build_lines Flags b verbose) verbose"

record NatTable =
  nt_prerouting :: ChainBuilder
  nt_input :: ChainBuilder
  nt_output :: ChainBuilder
  nt_postrouting :: ChainBuilder
  nt_chains :: "ChainBuilder list"

definition AddChain :: "NatTable \<Rightarrow> ChainBuilder \<Rightarrow> NatTable" where
  "AddChain t c = t\<lparr>nt_chains := nt_chains t @ [c]\<rparr>"

definition NatTable_TableBuilder :: "NatTable \<Rightarrow> TableBuilder" where
  "NatTable_TableBuilder t =
     \<lparr>tb_name = ''nat'',
      tb_newChains = nt_chains t,
      tb_chains = [nt_prerouting t, nt_input t, nt_output t, nt_postrouting t]\<rparr>"

definition NatTable_Build :: "flag_table \<Rightarrow> NatTable \<Rightarrow> bool \<Rightarrow> string" where
  "NatTable_Build Flags t verbose = TableBuilder_Build Flags (NatTable_TableBuilder t) verbose"

text \<open>The constructor \<open>Nat\<close> of the source; the name \<open>Nat\<close> is taken in HOL.\<close>

definition Nat_table :: NatTable where
  "Nat_table = \<lparr>nt_prerouting = NewChain ''PREROUTING'',
                nt_input = NewChain ''INPUT'',
                nt_output = NewChain ''OUTPUT'',
                nt_postrouting = NewChain ''POSTROUTING'',
                nt_chains = []\<rparr>"

subsection \<open>Reading the rendered block\<close>

text \<open>
  The vocabulary of the properties of \<open>Build\<close>. The separator between the top-level
  segments, and the text a group of lines contributes to the block: nothing when the
  group is omitted, otherwise the separator, in verbose mode the comment line, and the
  lines joined by line feeds.
\<close>

definition seg_sep :: "bool \<Rightarrow> string" where
  "seg_sep verbose = (if verbose then [LF, LF] else [LF])"

definition group_text :: "bool \<Rightarrow> string \<Rightarrow> string list \<Rightarrow> string" where
  "group_text verbose title ls =
     (if ls = [] \<or> (\<not> verbose \<and> strings_Join ls [LF] = []) then []
      else seg_sep verbose @ (if verbose then title @ [LF] else []) @ strings_Join ls [LF])"

text \<open>
  Stripping the annotations of a verbose block, in the spec's words: split the text at
  line feeds, drop the comment lines (those starting with \<open>#\<close>) and the blank lines,
  and join what is left with single line feeds.
\<close>

fun split_lines :: "string \<Rightarrow> string list" where
  "split_lines [] = [[]]"
| "split_lines (c # cs) =
     (if c = LF then [] # split_lines cs
      else (case split_lines cs of [] \<Rightarrow> [[c]] | l # ls \<Rightarrow> (c # l) # ls))"

definition is_comment :: "string \<Rightarrow> bool" where
  "is_comment l = (case l of [] \<Rightarrow> False | c # _ \<Rightarrow> c = CHR ''#'')"

definition content_lines :: "string \<Rightarrow> string list" where
  "content_lines s = filter (\<lambda>l. l \<noteq> [] \<and> \<not> is_comment l) (split_lines s)"

definition strip_annotations :: "string \<Rightarrow> string" where
  "strip_annotations s = strings_Join (content_lines s) [LF]"

text \<open>A line that stripping keeps as it is: not empty, a single line, not a comment.\<close>

definition plain_line :: "string \<Rightarrow> bool" where
  "plain_line l = (l \<noteq> [] \<and> LF \<notin> set l \<and> \<not> is_comment l)"

subsection \<open>Build on a store\<close>

text \<open>
  To state that \<open>Build\<close> leaves the table alone, the call is also modelled on a store.
  The store is a list of cells, an address is an index. A cell is the backing array of a
  \<^verbatim>\<open>[]string\<close>, the backing array of a \<^verbatim>\<open>[]*ChainBuilder\<close>, a chain, or a
  \<open>NatTable\<close> with its four chain pointers and its slice of custom chains. A slice is
  the address of its backing array (\<open>None\<close> for the nil slice) and its length; its
  capacity is the length of the array. Every failure to read the store is \<open>None\<close>.
\<close>

type_synonym slice = "nat option \<times> nat"

datatype cell =
    Strings "string list"
  | Pointers "nat list"
  | ChainObj ChainBuilder
  | TableObj nat nat nat nat slice

type_synonym heap = "cell list"

definition cell_at :: "heap \<Rightarrow> nat \<Rightarrow> cell option" where
  "cell_at h a = (if a < length h then Some (h ! a) else None)"

definition chain_at :: "heap \<Rightarrow> nat \<Rightarrow> ChainBuilder option" where
  "chain_at h p = (case cell_at h p of Some (ChainObj c) \<Rightarrow> Some c | _ \<Rightarrow> None)"

definition pointer_at :: "heap \<Rightarrow> slice \<Rightarrow> nat \<Rightarrow> nat option" where
  "pointer_at h s i =
     (case fst s of
        None \<Rightarrow> None
      | Some a \<Rightarrow>
          (case cell_at h a of
             Some (Pointers ps) \<Rightarrow> if i < snd s \<and> i < length ps then Some (ps ! i) else None
           | _ \<Rightarrow> None))"

definition read_strings :: "heap \<Rightarrow> slice \<Rightarrow> string list option" where
  "read_strings h s =
     (case fst s of
        None \<Rightarrow> Some []
      | Some a \<Rightarrow>
          (case cell_at h a of
             Some (Strings arr) \<Rightarrow> if snd s \<le> length arr then Some (take (snd s) arr) else None
           | _ \<Rightarrow> None))"

definition alloc :: "heap \<Rightarrow> cell \<Rightarrow> nat \<times> heap" where
  "alloc h c = (length h, h @ [c])"

text \<open>
  The built-in \<^verbatim>\<open>append(s, xs...)\<close>: with nothing to add it returns \<open>s\<close>; when the
  capacity suffices it writes the new elements into the backing array of \<open>s\<close>;
  otherwise it copies into a new array. How much spare capacity a new array gets is up
  to the Go runtime: \<open>slack\<close>, a parameter, gives it from the old capacity and the
  length needed.
\<close>

definition go_append ::
  "(nat \<Rightarrow> nat \<Rightarrow> nat) \<Rightarrow> heap \<Rightarrow> slice \<Rightarrow> string list \<Rightarrow> (slice \<times> heap) option" where
  "go_append slack h s xs =
     (if xs = [] then Some (s, h)
      else (case fst s of
              None \<Rightarrow>
                (let (a, h') = alloc h (Strings (xs @ replicate (slack 0 (length xs)) []))
                 in Some ((Some a, length xs), h'))
            | Some a \<Rightarrow>
                (case cell_at h a of
                   Some (Strings arr) \<Rightarrow>
                     if snd s > length arr then None
                     else if snd s + length xs \<le> length arr
                     then Some ((Some a, snd s + length xs),
                                h[a := Strings (take (snd s) arr @ xs
                                                @ drop (snd s + length xs) arr)])
                     else (let (a', h') =
                                 alloc h (Strings (take (snd s) arr @ xs
                                   @ replicate (slack (length arr) (snd s + length xs)) []))
                           in Some ((Some a', snd s + length xs), h'))
                 | _ \<Rightarrow> None)))"

text \<open>
  The two loops of \<open>TableBuilder.Build\<close>, over the indices of the slice ranged over;
  each iteration reads its element from the store as it is then.
\<close>

fun chains_loop_st ::
  "(nat \<Rightarrow> nat \<Rightarrow> nat) \<Rightarrow> bool \<Rightarrow> slice \<Rightarrow> nat list \<Rightarrow> slice \<times> heap \<Rightarrow> (slice \<times> heap) option" where
  "chains_loop_st slack verbose cs [] acc = Some acc"
| "chains_loop_st slack verbose cs (i # is) (ruleLines, h) =
     do {
       p \<leftarrow> pointer_at h cs i;
       c \<leftarrow> chain_at h p;
       acc' \<leftarrow> go_append slack h ruleLines (ChainBuilder_Build c verbose);
       chains_loop_st slack verbose cs is acc'
     }"

fun newChains_loop_st ::
  "flag_table \<Rightarrow> (nat \<Rightarrow> nat \<Rightarrow> nat) \<Rightarrow> bool \<Rightarrow> slice \<Rightarrow> nat list
     \<Rightarrow> slice \<times> slice \<times> heap \<Rightarrow> (slice \<times> slice \<times> heap) option" where
  "newChains_loop_st Flags slack verbose cs [] acc = Some acc"
| "newChains_loop_st Flags slack verbose cs (i # is) (newChainLines, ruleLines, h) =
     do {
       p \<leftarrow> pointer_at h cs i;
       c \<leftarrow> chain_at h p;
       (newChainLines', h1) \<leftarrow> go_append slack h newChainLines
          [flag_index Flags ''new-chain'' verbose @ '' '' @ ChainBuilder_String c];
       (ruleLines', h2) \<leftarrow> go_append slack h1 ruleLines (ChainBuilder_Build c verbose);
       newChains_loop_st Flags slack verbose cs is (newChainLines', ruleLines', h2)
     }"

text \<open>\<^verbatim>\<open>append([]string{title}, s...)\<close>: a new one-element array, then the append.\<close>

definition prepend_st ::
  "(nat \<Rightarrow> nat \<Rightarrow> nat) \<Rightarrow> heap \<Rightarrow> string \<Rightarrow> slice \<Rightarrow> (slice \<times> heap) option" where
  "prepend_st slack h title s =
     do {
       ls \<leftarrow> read_strings h s;
       (a, h') \<leftarrow> Some (alloc h (Strings [title]));
       go_append slack h' (Some a, 1) ls
     }"

definition TableBuilder_Build_st ::
  "flag_table \<Rightarrow> (nat \<Rightarrow> nat \<Rightarrow> nat) \<Rightarrow> heap \<Rightarrow> string \<Rightarrow> slice \<Rightarrow> slice \<Rightarrow> bool
     \<Rightarrow> (string \<times> heap) option" where
  "TableBuilder_Build_st Flags slack h0 tname newChains_sl chains_sl verbose =
     do {
       (ruleLines0, h1) \<leftarrow>
         chains_loop_st slack verbose chains_sl [0..<snd chains_sl] ((None, 0), h0);
       (newChainLines1, ruleLines1, h2) \<leftarrow>
         newChains_loop_st Flags slack verbose newChains_sl [0..<snd newChains_sl]
           ((None, 0), ruleLines0, h1);
       (newChainLines, h3) \<leftarrow>
         (if verbose \<and> snd newChainLines1 > 0
          then prepend_st slack h2 ''# Custom Chains:'' newChainLines1
          else Some (newChainLines1, h2));
       (ruleLines, h4) \<leftarrow>
         (if verbose \<and> snd ruleLines1 > 0
          then prepend_st slack h3 ''# Rules:'' ruleLines1
          else Some (ruleLines1, h3));
       (a, h5) \<leftarrow> Some (alloc h4 (Strings [''* '' @ tname]));
       ncl \<leftarrow> read_strings h5 newChainLines;
       (lines1, h6) \<leftarrow>
         (if strings_Join ncl [LF] \<noteq> []
          then go_append slack h5 (Some a, 1) [strings_Join ncl [LF]]
          else Some ((Some a, 1), h5));
       rl \<leftarrow> read_strings h6 ruleLines;
       (lines2, h7) \<leftarrow>
         (if strings_Join rl [LF] \<noteq> []
          then go_append slack h6 lines1 [strings_Join rl [LF]]
          else Some (lines1, h6));
       (lines3, h8) \<leftarrow> go_append slack h7 lines2 [''COMMIT''];
       ls \<leftarrow> read_strings h8 lines3;
       Some (if verbose then strings_Join ls [LF, LF] else strings_Join ls [LF], h8)
     }"

text \<open>
  \<open>NatTable.Build\<close> on the table at address \<open>t\<close>: the slice literal of the four
  built-in chains is a new array, \<open>newChains\<close> shares the array of the table's custom
  chains.
\<close>

definition NatTable_Build_st ::
  "flag_table \<Rightarrow> (nat \<Rightarrow> nat \<Rightarrow> nat) \<Rightarrow> heap \<Rightarrow> nat \<Rightarrow> bool \<Rightarrow> (string \<times> heap) option" where
  "NatTable_Build_st Flags slack h t verbose =
     (case cell_at h t of
        Some (TableObj prerouting input output postrouting custom) \<Rightarrow>
          do {
            (a, h') \<leftarrow> Some (alloc h (Pointers [prerouting, input, output, postrouting]));
            TableBuilder_Build_st Flags slack h' ''nat'' custom (Some a, 4) verbose
          }
      | _ \<Rightarrow> None)"

text \<open>
  The table a store holds at an address, as a value: the chains its pointers lead to.
  It is \<open>None\<close> when the address holds no table or a pointer leads to no chain.
\<close>

definition chain_of :: "heap \<Rightarrow> slice \<Rightarrow> nat \<Rightarrow> ChainBuilder option" where
  "chain_of h cs i = Option.bind (pointer_at h cs i) (chain_at h)"

definition read_chains :: "heap \<Rightarrow> slice \<Rightarrow> ChainBuilder list option" where
  "read_chains h cs = those (map (chain_of h cs) [0..<snd cs])"

definition abs_table :: "heap \<Rightarrow> nat \<Rightarrow> NatTable option" where
  "abs_table h t =
     (case cell_at h t of
        Some (TableObj prerouting input output postrouting custom) \<Rightarrow>
          do {
            c1 \<leftarrow> chain_at h prerouting;
            c2 \<leftarrow> chain_at h input;
            c3 \<leftarrow> chain_at h output;
            c4 \<leftarrow> chain_at h postrouting;
            cs \<leftarrow> read_chains h custom;
            Some \<lparr>nt_prerouting = c1, nt_input = c2, nt_output = c3, nt_postrouting = c4,
                  nt_chains = cs\<rparr>
          }
      | _ \<Rightarrow> None)"

text \<open>
  A store extends another when it keeps every cell of it unchanged and may hold new
  cells. The other three notions are the invariant of the local slices of \<open>Build\<close>: a
  slice is local when its array, if any, was allocated after the call began; it holds a
  list when reading it gives the list; two slices are apart when they do not share an
  array.
\<close>

definition extends :: "heap \<Rightarrow> heap \<Rightarrow> bool" where
  "extends H h = (length H \<le> length h \<and> take (length H) h = H)"

definition local_to :: "heap \<Rightarrow> slice \<Rightarrow> bool" where
  "local_to H s = (case fst s of None \<Rightarrow> True | Some a \<Rightarrow> length H \<le> a)"

definition holds :: "heap \<Rightarrow> slice \<Rightarrow> string list \<Rightarrow> bool" where
  "holds h s ls = (read_strings h s = Some ls \<and> snd s = length ls)"

definition apart :: "slice \<Rightarrow> slice \<Rightarrow> bool" where
  "apart r s = (fst r = None \<or> fst r \<noteq> fst s)"

section \<open>Package ebpf\<close>

subsection \<open>The map record\<close>

text \<open>
  \<open>Cidr\<close> and \<open>PodConfig\<close> are type declarations. They are embedded as descriptions of
  Go types, with the size and alignment rules of the Go compiler for these types: an
  unsigned integer is aligned to its size, an array to its element, a struct to its
  widest field; fields are laid out in declaration order, each at the next multiple of
  its alignment, and the size of a struct is rounded up to its alignment.
\<close>

datatype go_type = Uint8 | Uint16 | Uint32 | Array nat go_type | Struct "(string \<times> go_type) list"

fun alignof :: "go_type \<Rightarrow> nat"
  and alignof_fields :: "(string \<times> go_type) list \<Rightarrow> nat" where
  "alignof Uint8 = 1"
| "alignof Uint16 = 2"
| "alignof Uint32 = 4"
| "alignof (Array n t) = alignof t"
| "alignof (Struct fs) = alignof_fields fs"
| "alignof_fields [] = 1"
| "alignof_fields ((f, t) # fs) = max (alignof t) (alignof_fields fs)"

definition align_up :: "nat \<Rightarrow> nat \<Rightarrow> nat" where
  "align_up n a = ((n + a - 1) div a) * a"

fun sizeof :: "go_type \<Rightarrow> nat"
  and fields_end :: "nat \<Rightarrow> (string \<times> go_type) list \<Rightarrow> nat" where
  "sizeof Uint8 = 1"
| "sizeof Uint16 = 2"
| "sizeof Uint32 = 4"
| "sizeof (Array n t) = n * sizeof t"
| "sizeof (Struct fs) = align_up (fields_end 0 fs) (alignof_fields fs)"
| "fields_end off [] = off"
| "fields_end off ((f, t) # fs) = fields_end (align_up off (alignof t) + sizeof t) fs"

text \<open>The layout of a field list: each field's name, type, offset and size.\<close>

fun layout :: "nat \<Rightarrow> (string \<times> go_type) list \<Rightarrow> (string \<times> go_type \<times> nat \<times> nat) list" where
  "layout off [] = []"
| "layout off ((f, t) # fs) =
     (f, t, align_up off (alignof t), sizeof t) # layout (align_up off (alignof t) + sizeof t) fs"

definition struct_fields :: "go_type \<Rightarrow> (string \<times> go_type) list" where
  "struct_fields t = (case t of Struct fs \<Rightarrow> fs | _ \<Rightarrow> [])"

definition MaxItemLen :: nat where
  "MaxItemLen = 10"

definition Cidr :: go_type where
  "Cidr = Struct [(''Net'', Uint32), (''Mask'', Uint8), (''_'', Array 3 Uint8)]"

definition PodConfig :: go_type where
  "PodConfig = Struct
     [(''StatusPort'', Uint16),
      (''_'', Uint16),
      (''ExcludeOutRanges'', Array MaxItemLen Cidr),
      (''IncludeOutRanges'', Array MaxItemLen Cidr),
      (''IncludeInPorts'', Array MaxItemLen Uint16),
      (''IncludeOutPorts'', Array MaxItemLen Uint16),
      (''ExcludeInPorts'', Array MaxItemLen Uint16),
      (''ExcludeOutPorts'', Array MaxItemLen Uint16)]"

subsection \<open>Running a program\<close>

text \<open>
  What \<^verbatim>\<open>cmd.Run()\<close> leaves behind: the process state (\<open>None\<close> is the nil
  \<^verbatim>\<open>*os.ProcessState\<close> of a command that never started), the error it returned, and
  what the process wrote to its two streams. \<^verbatim>\<open>ProcessState.ExitCode\<close> accepts the nil
  receiver and answers \<open>-1\<close> for it.
\<close>

record cmd_output =
  ProcessState :: "int option"
  run_err :: "string option"
  to_stdout :: string
  to_stderr :: string

definition ExitCode :: "int option \<Rightarrow> int" where
  "ExitCode p = (case p of None \<Rightarrow> - 1 | Some code \<Rightarrow> code)"

text \<open>
  The operating system is a parameter: the environment of the process, what executing a
  command does to the world outside (of any type \<open>'w\<close>) and yields, and \<^verbatim>\<open>path.Join\<close>.
  The state threaded through the code is the two writers of the configuration, as the
  text written to them so far, and that world.
\<close>

record 'w sys =
  os_Environ :: "string list"
  exec_Run :: "'w \<Rightarrow> string \<Rightarrow> string list \<Rightarrow> string list \<Rightarrow> cmd_output \<times> 'w"
  path_Join :: "string list \<Rightarrow> string"

record 'w runtime =
  rt_stdout :: string
  rt_stderr :: string
  rt_world :: 'w

definition run ::
  "'w sys \<Rightarrow> string \<Rightarrow> string list \<Rightarrow> string list \<Rightarrow> 'w runtime \<Rightarrow> string option \<times> 'w runtime" where
  "run s cmdToExec args envVars st =
     (let st1 = st\<lparr>rt_stdout := rt_stdout st @ ''Running: '' @ strings_Join envVars '' '' @ '' ''
                       @ cmdToExec @ '' '' @ strings_Join args '' '' @ [LF]\<rparr>;
          (cmd, w) = exec_Run s (rt_world st1) cmdToExec args (os_Environ s @ envVars);
          st2 = st1\<lparr>rt_stdout := rt_stdout st1 @ to_stdout cmd,
                    rt_stderr := rt_stderr st1 @ to_stderr cmd,
                    rt_world := w\<rparr>;
          err = run_err cmd;
          code = ExitCode (ProcessState cmd)
      in if code \<noteq> 0 \<or> err \<noteq> None
         then (Some (''unexpected exit code: '' @ show_int code @ '', err: '' @ show_error err), st2)
         else (None, st2\<lparr>rt_stdout := rt_stdout st2 @ [LF]\<rparr>))"

subsection \<open>Loading the programs\<close>

text \<open>
  A program's \<open>Flags\<close> is a closure: it may act on the world, and returns the flags or
  an error. Of the configuration only the fields read here are kept.
\<close>

record 'w Program =
  p_Name :: string
  p_Flags :: "'w \<Rightarrow> (string + string list) \<times> 'w"

record Config =
  ProgramsSourcePath :: string

text \<open>The body of the loop, on the accumulator \<open>errs\<close> and the state.\<close>

definition LoadAndAttach_body ::
  "'w sys \<Rightarrow> Config \<Rightarrow> 'w Program \<Rightarrow> string list \<times> 'w runtime \<Rightarrow> string list \<times> 'w runtime" where
  "LoadAndAttach_body s cfg p acc =
     (let (errs, st) = acc;
          (flags, w) = p_Flags p (rt_world st);
          st1 = st\<lparr>rt_world := w\<rparr>
      in case flags of
           Inl err \<Rightarrow> (errs @ [err], st1)
         | Inr fl \<Rightarrow>
             (case run s (path_Join s [ProgramsSourcePath cfg, p_Name p]) fl [] st1 of
                (Some err, st2) \<Rightarrow> (errs @ [err], st2)
              | (None, st2) \<Rightarrow> (errs, st2)))"

definition LoadAndAttachEbpfPrograms ::
  "'w sys \<Rightarrow> 'w Program list \<Rightarrow> Config \<Rightarrow> 'w runtime \<Rightarrow> string option \<times> 'w runtime" where
  "LoadAndAttachEbpfPrograms s programs cfg st =
     (let (errs, st1) = fold (LoadAndAttach_body s cfg) programs ([], st)
      in if length errs > 0
         then (Some (''loading and attaching bpf programs failed:'' @ [LF]
                     @ strings_Join errs [LF, TAB]), st1)
         else (None, st1))"

text \<open>
  The batch in the spec's words: one attempt per program, flags first and then the run,
  each attempt starting in the state the one before it left; the failures of a batch are
  the error messages of its attempts, in order.
\<close>

definition attempt :: "'w sys \<Rightarrow> Config \<Rightarrow> 'w Program \<Rightarrow> 'w runtime \<Rightarrow> string option \<times> 'w runtime" where
  "attempt s cfg p st =
     (case p_Flags p (rt_world st) of
        (Inl err, w) \<Rightarrow> (Some err, st\<lparr>rt_world := w\<rparr>)
      | (Inr fl, w) \<Rightarrow> run s (path_Join s [ProgramsSourcePath cfg, p_Name p]) fl [] (st\<lparr>rt_world := w\<rparr>))"

fun attempts ::
  "'w sys \<Rightarrow> Config \<Rightarrow> 'w Program list \<Rightarrow> 'w runtime \<Rightarrow> string option list \<times> 'w runtime" where
  "attempts s cfg [] st = ([], st)"
| "attempts s cfg (p # ps) st =
     (let (r, st1) = attempt s cfg p st;
          (rs, st2) = attempts s cfg ps st1
      in (r # rs, st2))"

definition failures :: "string option list \<Rightarrow> string list" where
  "failures rs = concat (map (\<lambda>r. case r of None \<Rightarrow> [] | Some e \<Rightarrow> [e]) rs)"

subsection \<open>The BPF file system\<close>

text \<open>
  What the code can see of a path: a file, a directory with its entries in the order
  \<^verbatim>\<open>os.ReadDir\<close> lists them, or a directory that cannot be read. \<open>isDirEmpty\<close> reads
  the directory at a path and descends by path; on the tree that is recursion on the
  node. Its result \<^verbatim>\<open>(bool, error)\<close> is a sum: the error, or the boolean.
\<close>

datatype node = File | Unreadable | Dir "(string \<times> node) list"

fun IsDir :: "node \<Rightarrow> bool" where
  "IsDir File = False"
| "IsDir Unreadable = True"
| "IsDir (Dir es) = True"

fun isDirEmpty :: "node \<Rightarrow> string + bool"
  and isDirEmpty_entries :: "(string \<times> node) list \<Rightarrow> string + bool" where
  "isDirEmpty File = Inl ''not a directory''"
| "isDirEmpty Unreadable = Inl ''permission denied''"
| "isDirEmpty (Dir es) = isDirEmpty_entries es"
| "isDirEmpty_entries [] = Inr True"
| "isDirEmpty_entries ((n, e) # es) =
     (if \<not> IsDir e then Inr False
      else (case isDirEmpty e of
              Inl err \<Rightarrow> Inl err
            | Inr isEmpty \<Rightarrow> if \<not> isEmpty then Inr False else isDirEmpty_entries es))"







section \<open>Example inputs\<close>

text \<open>
  The spellings of iptables for declaring a chain, long in verbose mode and short in
  compact mode, and a table with a rule in PREROUTING and two custom chains, of which
  the second has no rule.
\<close>

definition iptables_Flags :: flag_table where
  "iptables_Flags = [''new-chain'' \<mapsto> [True \<mapsto> ''--new-chain'', False \<mapsto> ''-N'']]"

definition foo_table :: NatTable where
  "foo_table = AddChain Nat_table (NewChain ''FOO'')"

definition example_table :: NatTable where
  "example_table =
     AddChain
       (AddChain
          (Nat_table\<lparr>nt_prerouting :=
             \<lparr>cb_name = ''PREROUTING'',
              cb_commands = [Rule (\<lambda>verbose. [if verbose then ''--append PREROUTING --jump FOO''
                                                 else ''-A PREROUTING -j FOO''])]\<rparr>\<rparr>)
          \<lparr>cb_name = ''FOO'',
           cb_commands = [Rule (\<lambda>verbose. [if verbose then ''--append FOO --jump RETURN''
                                              else ''-A FOO -j RETURN''])]\<rparr>)
       (NewChain ''BAR'')"

text \<open>A flag table and a table whose lines are spelled the same in both modes.\<close>

definition uniform_Flags :: flag_table where
  "uniform_Flags = [''new-chain'' \<mapsto> [True \<mapsto> ''-N'', False \<mapsto> ''-N'']]"

definition uniform_table :: NatTable where
  "uniform_table =
     AddChain
       (Nat_table\<lparr>nt_output :=
          \<lparr>cb_name = ''OUTPUT'', cb_commands = [Rule (\<lambda>verbose. [''-A OUTPUT -j FOO''])]\<rparr>\<rparr>)
       \<lparr>cb_name = ''FOO'', cb_commands = [Rule (\<lambda>verbose. [''-A FOO -j RETURN''])]\<rparr>"

text \<open>
  A system that logs the commands it executes: \<open>mb_bind\<close> exits with code 1,
  \<open>mb_missing\<close> cannot be started, every other command succeeds. Three programs, of
  which the second fails.
\<close>

type_synonym exec_log = "(string \<times> string list) list"

definition example_sys :: "exec_log sys" where
  "example_sys =
     \<lparr>os_Environ = [''PATH=/usr/bin''],
      exec_Run = (\<lambda>w cmd args env.
        (if cmd = ''/opt/ebpf/mb_bind''
         then \<lparr>ProcessState = Some 1, run_err = Some ''exit status 1'',
               to_stdout = [], to_stderr = []\<rparr>
         else if cmd = ''/opt/ebpf/mb_missing''
         then \<lparr>ProcessState = None, run_err = Some ''no such file or directory'',
               to_stdout = [], to_stderr = []\<rparr>
         else \<lparr>ProcessState = Some 0, run_err = None, to_stdout = [], to_stderr = []\<rparr>,
         w @ [(cmd, args)])),
      path_Join = (\<lambda>elems. strings_Join elems ''/'')\<rparr>"

definition example_program :: "string \<Rightarrow> exec_log Program" where
  "example_program n = \<lparr>p_Name = n, p_Flags = (\<lambda>w. (Inr [''--verbose''], w))\<rparr>"

definition example_programs :: "exec_log Program list" where
  "example_programs =
     [example_program ''mb_connect'', example_program ''mb_bind'', example_program ''mb_sendmsg'']"

definition example_cfg :: Config where
  "example_cfg = \<lparr>ProgramsSourcePath = ''/opt/ebpf''\<rparr>"

definition example_rt :: "exec_log runtime" where
  "example_rt = \<lparr>rt_stdout = [], rt_stderr = [], rt_world = []\<rparr>"




text \<open>
  A store that holds the table \<open>uniform_table\<close> at address 6; the array of its custom
  chains, at address 5, has room for a second chain.
\<close>

definition example_heap :: heap where
  "example_heap =
     [ChainObj (NewChain ''PREROUTING''),
      ChainObj (NewChain ''INPUT''),
      ChainObj \<lparr>cb_name = ''OUTPUT'', cb_commands = [Rule (\<lambda>verbose. [''-A OUTPUT -j FOO''])]\<rparr>,
      ChainObj (NewChain ''POSTROUTING''),
      ChainObj \<lparr>cb_name = ''FOO'', cb_commands = [Rule (\<lambda>verbose. [''-A FOO -j RETURN''])]\<rparr>,
      Pointers [4, 0],
      TableObj 0 1 2 3 (Some 5, 1)]"

section \<open>Properties of strings.Join\<close>

text \<open>The recursive equation of \<open>show_nat\<close> is unfolded on request only.\<close>

declare show_nat.simps [simp del]

lemma strings_Join_Cons:
  "ys \<noteq> [] \<Longrightarrow> strings_Join (x # ys) sep = x @ sep @ strings_Join ys sep"
  by (cases ys) simp_all

lemma strings_Join_append:
  "xs \<noteq> [] \<Longrightarrow> ys \<noteq> [] \<Longrightarrow>
   strings_Join (xs @ ys) sep = strings_Join xs sep @ sep @ strings_Join ys sep"
  by (induction xs sep rule: strings_Join.induct) (simp_all add: strings_Join_Cons)

lemma strings_Join_eq_Nil_iff:
  "sep \<noteq> [] \<Longrightarrow> strings_Join xs sep = [] \<longleftrightarrow> xs = [] \<or> xs = [[]]"
  by (induction xs sep rule: strings_Join.induct) simp_all

text \<open>Every element of a joined list is a substring of the result.\<close>

lemma strings_Join_nth:
  "i < length xs \<Longrightarrow> \<exists>a b. strings_Join xs sep = a @ xs ! i @ b"
proof (induction xs sep arbitrary: i rule: strings_Join.induct)
  case (1 sep)
  then show ?case by simp
next
  case (2 x sep)
  then have "strings_Join [x] sep = [] @ [x] ! i @ []" by simp
  then show ?case by blast
next
  case (3 x y ys sep)
  show ?case
  proof (cases i)
    case 0
    then have "strings_Join (x # y # ys) sep =
        [] @ (x # y # ys) ! i @ (sep @ strings_Join (y # ys) sep)"
      by simp
    then show ?thesis by blast
  next
    case (Suc k)
    with 3 obtain a b where "strings_Join (y # ys) sep = a @ (y # ys) ! k @ b"
      by fastforce
    then have "strings_Join (x # y # ys) sep = (x @ sep @ a) @ (x # y # ys) ! i @ b"
      using Suc by simp
    then show ?thesis by blast
  qed
qed

text \<open>Of two elements, the one with the smaller index lies to the left of the other.\<close>

lemma strings_Join_nth2:
  "i < j \<Longrightarrow> j < length xs \<Longrightarrow> \<exists>a b c. strings_Join xs sep = a @ xs ! i @ b @ xs ! j @ c"
proof (induction xs sep arbitrary: i j rule: strings_Join.induct)
  case (1 sep)
  then show ?case by simp
next
  case (2 x sep)
  then show ?case by simp
next
  case (3 x y ys sep)
  show ?case
  proof (cases i)
    case 0
    with 3 obtain k where k: "j = Suc k" "k < length (y # ys)" by (cases j) auto
    then obtain a b where "strings_Join (y # ys) sep = a @ (y # ys) ! k @ b"
      using strings_Join_nth by blast
    then have "strings_Join (x # y # ys) sep =
        [] @ (x # y # ys) ! i @ (sep @ a) @ (x # y # ys) ! j @ b"
      using 0 k by simp
    then show ?thesis by blast
  next
    case (Suc i')
    with 3 obtain k where k: "j = Suc k" "i' < k" "k < length (y # ys)" by (cases j) auto
    with 3 obtain a b c where
      "strings_Join (y # ys) sep = a @ (y # ys) ! i' @ b @ (y # ys) ! k @ c"
      by blast
    then have "strings_Join (x # y # ys) sep =
        (x @ sep @ a) @ (x # y # ys) ! i @ b @ (x # y # ys) ! j @ c"
      using Suc k by simp
    then show ?thesis by blast
  qed
qed

lemma strings_Join_empty_nth:
  assumes "strings_Join xs sep = []" "i < length xs"
  shows "xs ! i = []"
proof -
  obtain a b where "strings_Join xs sep = a @ xs ! i @ b"
    using strings_Join_nth [OF assms(2)] by blast
  with assms(1) show ?thesis by simp
qed

section \<open>The two loops and the assembly of Build\<close>

lemma Build_chains_loop_eq:
  "Build_chains_loop cs verbose acc = acc @ concat (map (\<lambda>c. ChainBuilder_Build c verbose) cs)"
  unfolding Build_chains_loop_def
  by (induction cs arbitrary: acc) simp_all

lemma Build_newChains_loop_eq:
  "Build_newChains_loop Flags cs verbose (ds, rs) =
     (ds @ map (\<lambda>c. flag_index Flags ''new-chain'' verbose @ '' '' @ ChainBuilder_String c) cs,
      rs @ concat (map (\<lambda>c. ChainBuilder_Build c verbose) cs))"
  unfolding Build_newChains_loop_def
  by (induction cs arbitrary: ds rs) simp_all

lemma Build_lines_eq:
  "Build_lines Flags b verbose =
     (map (\<lambda>c. flag_index Flags ''new-chain'' verbose @ '' '' @ ChainBuilder_String c) (tb_newChains b),
      concat (map (\<lambda>c. ChainBuilder_Build c verbose) (tb_chains b @ tb_newChains b)))"
  by (simp add: Build_lines_def Build_chains_loop_eq Build_newChains_loop_eq)

lemma Build_assemble_eq:
  "Build_assemble n (ds, rs) verbose =
     ''* '' @ n @ group_text verbose ''# Custom Chains:'' ds
       @ group_text verbose ''# Rules:'' rs @ seg_sep verbose @ ''COMMIT''"
  by (cases ds; cases rs; cases verbose)
     (simp_all add: Build_assemble_def group_text_def seg_sep_def Let_def strings_Join_Cons)

lemma NatTable_TableBuilder_name: "tb_name (NatTable_TableBuilder t) = ''nat''"
  by (simp add: NatTable_TableBuilder_def)

lemma NatTable_Build_eq:
  assumes "Build_lines Flags (NatTable_TableBuilder t) verbose = (ds, rs)"
  shows "NatTable_Build Flags t verbose =
     ''* nat'' @ group_text verbose ''# Custom Chains:'' ds
       @ group_text verbose ''# Rules:'' rs @ seg_sep verbose @ ''COMMIT''"
  by (simp add: NatTable_Build_def TableBuilder_Build_def assms Build_assemble_eq
      NatTable_TableBuilder_name)

lemma group_text_nth:
  assumes "i < length ls"
  shows "\<exists>a b. group_text verbose title ls = a @ ls ! i @ b"
proof (cases "ls = [] \<or> (\<not> verbose \<and> strings_Join ls [LF] = [])")
  case True
  with assms have "ls ! i = []" using strings_Join_empty_nth by auto
  then have "group_text verbose title ls = [] @ ls ! i @ group_text verbose title ls" by simp
  then show ?thesis by blast
next
  case False
  obtain a b where eq: "strings_Join ls [LF] = a @ ls ! i @ b"
    using strings_Join_nth [OF assms] by blast
  from False have "group_text verbose title ls =
      seg_sep verbose @ (if verbose then title @ [LF] else []) @ strings_Join ls [LF]"
    by (auto simp: group_text_def)
  then have "group_text verbose title ls =
      (seg_sep verbose @ (if verbose then title @ [LF] else []) @ a) @ ls ! i @ b"
    unfolding eq by simp
  then show ?thesis by blast
qed

lemma group_text_nth2:
  assumes "i < j" "j < length ls"
  shows "\<exists>a b c. group_text verbose title ls = a @ ls ! i @ b @ ls ! j @ c"
proof (cases "ls = [] \<or> (\<not> verbose \<and> strings_Join ls [LF] = [])")
  case True
  with assms have "ls ! i = []" "ls ! j = []" using strings_Join_empty_nth by auto
  then have "group_text verbose title ls = [] @ ls ! i @ [] @ ls ! j @ group_text verbose title ls"
    by simp
  then show ?thesis by blast
next
  case False
  obtain a b c where eq: "strings_Join ls [LF] = a @ ls ! i @ b @ ls ! j @ c"
    using strings_Join_nth2 [OF assms] by blast
  from False have "group_text verbose title ls =
      seg_sep verbose @ (if verbose then title @ [LF] else []) @ strings_Join ls [LF]"
    by (auto simp: group_text_def)
  then have "group_text verbose title ls =
      (seg_sep verbose @ (if verbose then title @ [LF] else []) @ a) @ ls ! i @ b @ ls ! j @ c"
    unfolding eq by simp
  then show ?thesis by blast
qed

section \<open>Declaration lines\<close>

text \<open>
  C1. For a table with custom chains \<open>c1 .. cN\<close> attached in this order, the
  declaration-line group filled by \<open>Build\<close> is exactly the \<open>N\<close> lines made of the
  flag of the mode, a space and the chain's name, in attachment order. The block is the
  header, the declaration group (with its comment line in verbose mode; absent only when
  there is no custom chain), the rule group and the COMMIT line; hence every declaration
  line stands to the left of every rule line in the block.
\<close>

theorem Build_declaration_lines:
  "let decls = map (\<lambda>c. flag_index Flags ''new-chain'' verbose @ '' '' @ ChainBuilder_String c)
                   (nt_chains t);
       rules = snd (Build_lines Flags (NatTable_TableBuilder t) verbose)
   in fst (Build_lines Flags (NatTable_TableBuilder t) verbose) = decls
      \<and> length decls = length (nt_chains t)
      \<and> NatTable_Build Flags t verbose =
          ''* nat''
          @ (if decls = [] then []
             else seg_sep verbose @ (if verbose then ''# Custom Chains:'' @ [LF] else [])
                  @ strings_Join decls [LF])
          @ group_text verbose ''# Rules:'' rules
          @ seg_sep verbose @ ''COMMIT''
      \<and> (\<forall>i < length decls. \<forall>j < length rules.
            \<exists>a b c. NatTable_Build Flags t verbose = a @ decls ! i @ b @ rules ! j @ c)"
proof -
  define decls where
    "decls = map (\<lambda>c. flag_index Flags ''new-chain'' verbose @ '' '' @ ChainBuilder_String c)
                 (nt_chains t)"
  define rules where "rules = snd (Build_lines Flags (NatTable_TableBuilder t) verbose)"
  have lines: "Build_lines Flags (NatTable_TableBuilder t) verbose = (decls, rules)"
    by (simp add: Build_lines_eq decls_def rules_def NatTable_TableBuilder_def)
  note out = NatTable_Build_eq [OF lines]
  have nonempty: "strings_Join decls [LF] \<noteq> []" if "decls \<noteq> []"
  proof
    assume "strings_Join decls [LF] = []"
    with that have "decls = [[]]" by (simp add: strings_Join_eq_Nil_iff)
    then show False by (auto simp: decls_def)
  qed
  have grp: "group_text verbose ''# Custom Chains:'' decls =
      (if decls = [] then []
       else seg_sep verbose @ (if verbose then ''# Custom Chains:'' @ [LF] else [])
            @ strings_Join decls [LF])"
    using nonempty by (simp add: group_text_def)
  have pos: "\<exists>a b c. NatTable_Build Flags t verbose = a @ decls ! i @ b @ rules ! j @ c"
    if i: "i < length decls" and j: "j < length rules" for i j
  proof -
    obtain a1 b1 where "group_text verbose ''# Custom Chains:'' decls = a1 @ decls ! i @ b1"
      using group_text_nth [OF i] by blast
    moreover obtain a2 b2 where "group_text verbose ''# Rules:'' rules = a2 @ rules ! j @ b2"
      using group_text_nth [OF j] by blast
    ultimately have "NatTable_Build Flags t verbose =
        (''* nat'' @ a1) @ decls ! i @ (b1 @ a2) @ rules ! j @ (b2 @ seg_sep verbose @ ''COMMIT'')"
      by (simp add: out)
    then show ?thesis by blast
  qed
  show ?thesis
    unfolding Let_def decls_def [symmetric] rules_def [symmetric]
    using lines out grp pos by (simp add: decls_def)
qed

lemma example_lines:
  "Build_lines iptables_Flags (NatTable_TableBuilder example_table) True =
     ([''--new-chain FOO'', ''--new-chain BAR''],
      [''--append PREROUTING --jump FOO'', ''--append FOO --jump RETURN''])"
  by (simp add: Build_lines_eq NatTable_TableBuilder_def example_table_def AddChain_def
      Nat_table_def NewChain_def ChainBuilder_Build_def ChainBuilder_String_def
      flag_index_def iptables_Flags_def)

text \<open>
  The theorem of C1 at the example table in verbose mode: two declaration lines in
  attachment order, the whole block, and the second declaration line to the left of the
  first rule line.
\<close>

theorem Build_declaration_lines_witness:
  "fst (Build_lines iptables_Flags (NatTable_TableBuilder example_table) True) =
     [''--new-chain FOO'', ''--new-chain BAR'']
   \<and> NatTable_Build iptables_Flags example_table True =
       ''* nat'' @ [LF, LF] @ ''# Custom Chains:'' @ [LF] @ ''--new-chain FOO'' @ [LF]
       @ ''--new-chain BAR'' @ [LF, LF] @ ''# Rules:'' @ [LF] @ ''--append PREROUTING --jump FOO''
       @ [LF] @ ''--append FOO --jump RETURN'' @ [LF, LF] @ ''COMMIT''
   \<and> (\<exists>a b c. NatTable_Build iptables_Flags example_table True =
         a @ ''--new-chain BAR'' @ b @ ''--append PREROUTING --jump FOO'' @ c)"
proof -
  have decls: "map (\<lambda>c. flag_index iptables_Flags ''new-chain'' True @ '' '' @ ChainBuilder_String c)
                 (nt_chains example_table) = [''--new-chain FOO'', ''--new-chain BAR'']"
    by (simp add: example_table_def AddChain_def Nat_table_def flag_index_def iptables_Flags_def
        ChainBuilder_String_def NewChain_def)
  have rules: "snd (Build_lines iptables_Flags (NatTable_TableBuilder example_table) True) =
      [''--append PREROUTING --jump FOO'', ''--append FOO --jump RETURN'']"
    by (simp add: example_lines)
  note inst = Build_declaration_lines [of iptables_Flags True example_table,
      unfolded Let_def decls rules]
  have "fst (Build_lines iptables_Flags (NatTable_TableBuilder example_table) True) =
      [''--new-chain FOO'', ''--new-chain BAR'']"
    using inst by (rule conjunct1)
  moreover have "NatTable_Build iptables_Flags example_table True =
       ''* nat'' @ [LF, LF] @ ''# Custom Chains:'' @ [LF] @ ''--new-chain FOO'' @ [LF]
       @ ''--new-chain BAR'' @ [LF, LF] @ ''# Rules:'' @ [LF] @ ''--append PREROUTING --jump FOO''
       @ [LF] @ ''--append FOO --jump RETURN'' @ [LF, LF] @ ''COMMIT''"
    using inst [THEN conjunct2, THEN conjunct2, THEN conjunct1]
    by (simp add: group_text_def seg_sep_def)
  moreover have "\<exists>a b c. NatTable_Build iptables_Flags example_table True =
         a @ ''--new-chain BAR'' @ b @ ''--append PREROUTING --jump FOO'' @ c"
    using inst [THEN conjunct2, THEN conjunct2, THEN conjunct2, rule_format, of 1 0]
    by simp
  ultimately show ?thesis by blast
qed

section \<open>Rule lines\<close>

text \<open>
  C2. The rule-line group filled by \<open>Build\<close> is the rule lines of PREROUTING, INPUT,
  OUTPUT and POSTROUTING, in this order, followed by the rule lines of the custom chains in
  attachment order; this group is what the block shows, so every rule line of a built-in
  chain stands to the left of every rule line of a custom chain.
\<close>

theorem Build_rule_lines_order:
  "let builtin = ChainBuilder_Build (nt_prerouting t) verbose @ ChainBuilder_Build (nt_input t) verbose
                 @ ChainBuilder_Build (nt_output t) verbose
                 @ ChainBuilder_Build (nt_postrouting t) verbose;
       custom = concat (map (\<lambda>c. ChainBuilder_Build c verbose) (nt_chains t))
   in snd (Build_lines Flags (NatTable_TableBuilder t) verbose) = builtin @ custom
      \<and> NatTable_Build Flags t verbose =
          ''* nat''
          @ group_text verbose ''# Custom Chains:'' (fst (Build_lines Flags (NatTable_TableBuilder t) verbose))
          @ group_text verbose ''# Rules:'' (builtin @ custom)
          @ seg_sep verbose @ ''COMMIT''
      \<and> (\<forall>i < length builtin. \<forall>j < length custom.
            \<exists>a b c. NatTable_Build Flags t verbose = a @ builtin ! i @ b @ custom ! j @ c)"
proof -
  define builtin where
    "builtin = ChainBuilder_Build (nt_prerouting t) verbose @ ChainBuilder_Build (nt_input t) verbose
                 @ ChainBuilder_Build (nt_output t) verbose
                 @ ChainBuilder_Build (nt_postrouting t) verbose"
  define custom where "custom = concat (map (\<lambda>c. ChainBuilder_Build c verbose) (nt_chains t))"
  define decls where "decls = fst (Build_lines Flags (NatTable_TableBuilder t) verbose)"
  have rules: "snd (Build_lines Flags (NatTable_TableBuilder t) verbose) = builtin @ custom"
    by (simp add: Build_lines_eq NatTable_TableBuilder_def builtin_def custom_def)
  then have lines: "Build_lines Flags (NatTable_TableBuilder t) verbose = (decls, builtin @ custom)"
    by (simp add: decls_def prod_eq_iff)
  note out = NatTable_Build_eq [OF lines]
  have pos: "\<exists>a b c. NatTable_Build Flags t verbose = a @ builtin ! i @ b @ custom ! j @ c"
    if i: "i < length builtin" and j: "j < length custom" for i j
  proof -
    from i j have "i < length builtin + j" "length builtin + j < length (builtin @ custom)"
      by simp_all
    then obtain a b c where "group_text verbose ''# Rules:'' (builtin @ custom) =
        a @ (builtin @ custom) ! i @ b @ (builtin @ custom) ! (length builtin + j) @ c"
      using group_text_nth2 by blast
    with i have "group_text verbose ''# Rules:'' (builtin @ custom) =
        a @ builtin ! i @ b @ custom ! j @ c"
      by (simp add: nth_append)
    then have "NatTable_Build Flags t verbose =
        (''* nat'' @ group_text verbose ''# Custom Chains:'' decls @ a) @ builtin ! i @ b
          @ custom ! j @ (c @ seg_sep verbose @ ''COMMIT'')"
      by (simp add: out)
    then show ?thesis by blast
  qed
  show ?thesis
    unfolding Let_def builtin_def [symmetric] custom_def [symmetric] decls_def [symmetric]
    using rules out pos by simp
qed

text \<open>
  The theorem of C2 at the example table in compact mode: the rule of PREROUTING, then
  the rule of the custom chain FOO.
\<close>

theorem Build_rule_lines_order_witness:
  "snd (Build_lines iptables_Flags (NatTable_TableBuilder example_table) False) =
     [''-A PREROUTING -j FOO'', ''-A FOO -j RETURN'']
   \<and> NatTable_Build iptables_Flags example_table False =
       ''* nat'' @ [LF] @ ''-N FOO'' @ [LF] @ ''-N BAR'' @ [LF] @ ''-A PREROUTING -j FOO''
       @ [LF] @ ''-A FOO -j RETURN'' @ [LF] @ ''COMMIT''
   \<and> (\<exists>a b c. NatTable_Build iptables_Flags example_table False =
         a @ ''-A PREROUTING -j FOO'' @ b @ ''-A FOO -j RETURN'' @ c)"
proof -
  have builtin: "ChainBuilder_Build (nt_prerouting example_table) False
      @ ChainBuilder_Build (nt_input example_table) False
      @ ChainBuilder_Build (nt_output example_table) False
      @ ChainBuilder_Build (nt_postrouting example_table) False = [''-A PREROUTING -j FOO'']"
    by (simp add: example_table_def AddChain_def Nat_table_def ChainBuilder_Build_def NewChain_def)
  have custom: "concat (map (\<lambda>c. ChainBuilder_Build c False) (nt_chains example_table)) =
      [''-A FOO -j RETURN'']"
    by (simp add: example_table_def AddChain_def Nat_table_def ChainBuilder_Build_def NewChain_def)
  have decls: "fst (Build_lines iptables_Flags (NatTable_TableBuilder example_table) False) =
      [''-N FOO'', ''-N BAR'']"
    by (simp add: Build_lines_eq NatTable_TableBuilder_def example_table_def AddChain_def
        Nat_table_def NewChain_def ChainBuilder_String_def flag_index_def iptables_Flags_def)
  note inst = Build_rule_lines_order [of example_table False iptables_Flags,
      unfolded Let_def builtin custom decls]
  have "snd (Build_lines iptables_Flags (NatTable_TableBuilder example_table) False) =
      [''-A PREROUTING -j FOO'', ''-A FOO -j RETURN'']"
    using inst [THEN conjunct1] by simp
  moreover have "NatTable_Build iptables_Flags example_table False =
       ''* nat'' @ [LF] @ ''-N FOO'' @ [LF] @ ''-N BAR'' @ [LF] @ ''-A PREROUTING -j FOO''
       @ [LF] @ ''-A FOO -j RETURN'' @ [LF] @ ''COMMIT''"
    using inst [THEN conjunct2, THEN conjunct1]
    by (simp add: group_text_def seg_sep_def)
  moreover have "\<exists>a b c. NatTable_Build iptables_Flags example_table False =
         a @ ''-A PREROUTING -j FOO'' @ b @ ''-A FOO -j RETURN'' @ c"
    using inst [THEN conjunct2, THEN conjunct2, rule_format, of 0 0]
    by simp
  ultimately show ?thesis by blast
qed

section \<open>The empty table\<close>

lemma Nat_table_lines: "Build_lines Flags (NatTable_TableBuilder Nat_table) verbose = ([], [])"
  by (simp add: Build_lines_eq NatTable_TableBuilder_def Nat_table_def NewChain_def
      ChainBuilder_Build_def)

text \<open>
  C4. In compact mode the freshly constructed NAT table renders to the header line, one
  line feed and the COMMIT line: neither group is emitted.
\<close>

theorem Nat_Build_compact:
  "NatTable_Build Flags Nat_table False = ''* nat'' @ [CHR 0x0A] @ ''COMMIT''"
  by (simp add: NatTable_Build_def TableBuilder_Build_def Nat_table_lines
      NatTable_TableBuilder_name Build_assemble_def LF_def)

text \<open>
  C10. In verbose mode the freshly constructed NAT table renders to the header line, a
  blank line and the COMMIT line, with no comment line.
\<close>

theorem Nat_Build_verbose:
  "NatTable_Build Flags Nat_table True = ''* nat'' @ [CHR 0x0A, CHR 0x0A] @ ''COMMIT''"
  by (simp add: NatTable_Build_def TableBuilder_Build_def Nat_table_lines
      NatTable_TableBuilder_name Build_assemble_def LF_def)

section \<open>Verbose against compact\<close>

lemma split_lines_nonempty: "split_lines s \<noteq> []"
  by (induction s) (auto split: list.splits)

lemma split_lines_LF: "split_lines (a @ LF # b) = split_lines a @ split_lines b"
  by (induction a) (auto split: list.splits simp: split_lines_nonempty)

lemma split_lines_plain: "LF \<notin> set l \<Longrightarrow> split_lines l = [l]"
  by (induction l) auto

lemma content_lines_LF: "content_lines (a @ LF # b) = content_lines a @ content_lines b"
  by (simp add: content_lines_def split_lines_LF)

lemma content_lines_Nil: "content_lines [] = []"
  by (simp add: content_lines_def)

lemma content_lines_LF_Cons: "content_lines (LF # b) = content_lines b"
  using content_lines_LF [of "[]" b] by (simp add: content_lines_Nil)

lemma content_lines_plain: "plain_line l \<Longrightarrow> content_lines l = [l]"
  by (simp add: content_lines_def plain_line_def split_lines_plain)

lemma content_lines_comment: "LF \<notin> set l \<Longrightarrow> is_comment l \<Longrightarrow> content_lines l = []"
  by (simp add: content_lines_def split_lines_plain)

lemma content_lines_Join:
  "\<forall>l \<in> set ls. plain_line l \<Longrightarrow> content_lines (strings_Join ls [LF]) = ls"
  by (induction ls "[LF]" rule: strings_Join.induct)
     (simp_all add: content_lines_Nil content_lines_plain content_lines_LF)

lemma plain_Join_nonempty:
  assumes "\<forall>l \<in> set ls. plain_line l" "ls \<noteq> []"
  shows "strings_Join ls [LF] \<noteq> []"
proof
  assume "strings_Join ls [LF] = []"
  with assms(2) have "ls = [[]]" by (simp add: strings_Join_eq_Nil_iff)
  with assms(1) show False by (simp add: plain_line_def)
qed

text \<open>Stripping a verbose group leaves its lines.\<close>

lemma content_lines_group_snoc:
  assumes "\<forall>l \<in> set ls. plain_line l" "is_comment title" "LF \<notin> set title"
  shows "content_lines (a @ group_text True title ls) = content_lines a @ ls"
proof (cases "ls = []")
  case True
  then show ?thesis
    by (simp add: group_text_def)
next
  case False
  then have "a @ group_text True title ls = a @ LF # (LF # (title @ LF # strings_Join ls [LF]))"
    by (simp add: group_text_def seg_sep_def)
  then have "content_lines (a @ group_text True title ls) =
      content_lines a @ content_lines title @ content_lines (strings_Join ls [LF])"
    by (simp only: content_lines_LF_Cons content_lines_LF)
  then show ?thesis
    using assms by (simp add: content_lines_comment content_lines_Join)
qed

lemma content_lines_segments:
  assumes "\<forall>l \<in> set ds. plain_line l" "\<forall>l \<in> set rs. plain_line l"
    and "is_comment t1" "LF \<notin> set t1" "is_comment t2" "LF \<notin> set t2"
  shows "content_lines (((h @ group_text True t1 ds) @ group_text True t2 rs) @ LF # (LF # c)) =
           content_lines h @ ds @ rs @ content_lines c"
proof -
  have "content_lines (((h @ group_text True t1 ds) @ group_text True t2 rs) @ LF # (LF # c)) =
      content_lines ((h @ group_text True t1 ds) @ group_text True t2 rs) @ content_lines c"
    by (simp only: content_lines_LF content_lines_LF_Cons)
  also have "content_lines ((h @ group_text True t1 ds) @ group_text True t2 rs) =
      content_lines (h @ group_text True t1 ds) @ rs"
    using assms(2,5,6) by (rule content_lines_group_snoc)
  also have "content_lines (h @ group_text True t1 ds) = content_lines h @ ds"
    using assms(1,3,4) by (rule content_lines_group_snoc)
  finally show ?thesis by simp
qed

lemma verbose_content_lines:
  assumes "\<forall>l \<in> set ds. plain_line l" "\<forall>l \<in> set rs. plain_line l"
  shows "content_lines (Build_assemble ''nat'' (ds, rs) True) = ''* nat'' # ds @ rs @ [''COMMIT'']"
proof -
  have eq: "Build_assemble ''nat'' (ds, rs) True =
      ((''* nat'' @ group_text True ''# Custom Chains:'' ds) @ group_text True ''# Rules:'' rs)
        @ LF # (LF # ''COMMIT'')"
    by (simp add: Build_assemble_eq seg_sep_def)
  have cmt: "is_comment ''# Custom Chains:''" "LF \<notin> set ''# Custom Chains:''"
    "is_comment ''# Rules:''" "LF \<notin> set ''# Rules:''"
    by (simp_all add: is_comment_def LF_def)
  have "plain_line ''* nat''" "plain_line ''COMMIT''"
    by (simp_all add: plain_line_def is_comment_def LF_def)
  then have "content_lines ''* nat'' = [''* nat'']" "content_lines ''COMMIT'' = [''COMMIT'']"
    by (simp_all only: content_lines_plain)
  then show ?thesis
    unfolding eq content_lines_segments [OF assms cmt] by simp
qed

text \<open>In compact mode the block is the join of all its lines.\<close>

lemma compact_group:
  assumes "\<forall>l \<in> set ls. plain_line l" and rest: "rest \<noteq> []"
  shows "group_text False title ls @ LF # strings_Join rest [LF] = LF # strings_Join (ls @ rest) [LF]"
proof (cases "ls = []")
  case True
  then show ?thesis by (simp add: group_text_def)
next
  case False
  with assms have "strings_Join ls [LF] \<noteq> []" by (simp add: plain_Join_nonempty)
  with False rest show ?thesis
    by (simp add: group_text_def seg_sep_def strings_Join_append)
qed

lemma compact_assemble:
  assumes "\<forall>l \<in> set ds. plain_line l" "\<forall>l \<in> set rs. plain_line l"
  shows "Build_assemble ''nat'' (ds, rs) False = strings_Join (''* nat'' # ds @ rs @ [''COMMIT'']) [LF]"
proof -
  have "group_text False ''# Rules:'' rs @ LF # strings_Join [''COMMIT''] [LF] =
      LF # strings_Join (rs @ [''COMMIT'']) [LF]"
    using assms(2) by (rule compact_group) simp
  moreover have "group_text False ''# Custom Chains:'' ds @ LF # strings_Join (rs @ [''COMMIT'']) [LF] =
      LF # strings_Join (ds @ rs @ [''COMMIT'']) [LF]"
    using assms(1) by (rule compact_group) simp
  ultimately have "Build_assemble ''nat'' (ds, rs) False =
      ''* nat'' @ [LF] @ strings_Join (ds @ rs @ [''COMMIT'']) [LF]"
    by (simp add: Build_assemble_eq seg_sep_def)
  then show ?thesis
    by (simp add: strings_Join_Cons)
qed

text \<open>
  C3, as amended. When every declaration line and every rule line rendered in verbose
  mode is a non-empty single line that does not start with \<open>#\<close>, the verbose block
  without its comment lines and blank lines is the compact layout of the lines as
  verbose mode spells them; it is the compact block itself when both modes render the
  same declaration and rule lines.
\<close>

theorem strip_verbose_compact_layout:
  assumes "\<forall>l \<in> set (fst (Build_lines Flags (NatTable_TableBuilder t) True)). plain_line l"
    and "\<forall>l \<in> set (snd (Build_lines Flags (NatTable_TableBuilder t) True)). plain_line l"
  shows "strip_annotations (NatTable_Build Flags t True) =
           Build_assemble ''nat'' (Build_lines Flags (NatTable_TableBuilder t) True) False
         \<and> (Build_lines Flags (NatTable_TableBuilder t) False =
              Build_lines Flags (NatTable_TableBuilder t) True
            \<longrightarrow> strip_annotations (NatTable_Build Flags t True) = NatTable_Build Flags t False)"
proof -
  obtain ds rs where lines: "Build_lines Flags (NatTable_TableBuilder t) True = (ds, rs)"
    by (cases "Build_lines Flags (NatTable_TableBuilder t) True")
  from assms lines have plain: "\<forall>l \<in> set ds. plain_line l" "\<forall>l \<in> set rs. plain_line l"
    by simp_all
  have "strip_annotations (NatTable_Build Flags t True) =
      strings_Join (''* nat'' # ds @ rs @ [''COMMIT'']) [LF]"
    using verbose_content_lines [OF plain]
    by (simp add: strip_annotations_def NatTable_Build_def TableBuilder_Build_def lines
        NatTable_TableBuilder_name)
  then have first: "strip_annotations (NatTable_Build Flags t True) =
      Build_assemble ''nat'' (Build_lines Flags (NatTable_TableBuilder t) True) False"
    using compact_assemble [OF plain] by (simp add: lines)
  then show ?thesis
    by (simp add: NatTable_Build_def TableBuilder_Build_def NatTable_TableBuilder_name)
qed

lemma uniform_lines:
  "Build_lines uniform_Flags (NatTable_TableBuilder uniform_table) verbose =
     ([''-N FOO''], [''-A OUTPUT -j FOO'', ''-A FOO -j RETURN''])"
  by (simp add: Build_lines_eq NatTable_TableBuilder_def uniform_table_def AddChain_def
      Nat_table_def NewChain_def ChainBuilder_Build_def ChainBuilder_String_def
      flag_index_def uniform_Flags_def)

text \<open>
  The amended C3 at a table whose lines are spelled the same in both modes: the lines
  are plain, and the stripped verbose block is the compact block.
\<close>

theorem strip_verbose_compact_layout_witness:
  "plain_line ''-N FOO'' \<and> plain_line ''-A OUTPUT -j FOO'' \<and> plain_line ''-A FOO -j RETURN''
   \<and> Build_lines uniform_Flags (NatTable_TableBuilder uniform_table) False =
       Build_lines uniform_Flags (NatTable_TableBuilder uniform_table) True
   \<and> strip_annotations (NatTable_Build uniform_Flags uniform_table True) =
       NatTable_Build uniform_Flags uniform_table False
   \<and> NatTable_Build uniform_Flags uniform_table False =
       ''* nat'' @ [LF] @ ''-N FOO'' @ [LF] @ ''-A OUTPUT -j FOO'' @ [LF] @ ''-A FOO -j RETURN''
       @ [LF] @ ''COMMIT''"
proof -
  have plain: "plain_line ''-N FOO''" "plain_line ''-A OUTPUT -j FOO''"
    "plain_line ''-A FOO -j RETURN''"
    by (simp_all add: plain_line_def is_comment_def LF_def)
  have h1: "\<forall>l \<in> set (fst (Build_lines uniform_Flags (NatTable_TableBuilder uniform_table) True)).
      plain_line l"
    using plain by (simp add: uniform_lines)
  have h2: "\<forall>l \<in> set (snd (Build_lines uniform_Flags (NatTable_TableBuilder uniform_table) True)).
      plain_line l"
    using plain by (simp add: uniform_lines)
  have same: "Build_lines uniform_Flags (NatTable_TableBuilder uniform_table) False =
      Build_lines uniform_Flags (NatTable_TableBuilder uniform_table) True"
    by (simp add: uniform_lines)
  have strip: "strip_annotations (NatTable_Build uniform_Flags uniform_table True) =
      NatTable_Build uniform_Flags uniform_table False"
    using strip_verbose_compact_layout [OF h1 h2] same by blast
  have "NatTable_Build uniform_Flags uniform_table False =
       ''* nat'' @ [LF] @ ''-N FOO'' @ [LF] @ ''-A OUTPUT -j FOO'' @ [LF] @ ''-A FOO -j RETURN''
       @ [LF] @ ''COMMIT''"
    by (simp add: NatTable_Build_def TableBuilder_Build_def uniform_lines Build_assemble_def
        NatTable_TableBuilder_name)
  with plain same strip show ?thesis by blast
qed

lemma foo_lines:
  "Build_lines iptables_Flags (NatTable_TableBuilder foo_table) True = ([''--new-chain FOO''], [])"
  "Build_lines iptables_Flags (NatTable_TableBuilder foo_table) False = ([''-N FOO''], [])"
  by (simp_all add: Build_lines_eq NatTable_TableBuilder_def foo_table_def AddChain_def
      Nat_table_def NewChain_def ChainBuilder_Build_def ChainBuilder_String_def
      flag_index_def iptables_Flags_def)

text \<open>
  C3 as stated fails: with the spellings of iptables and one custom chain FOO the
  stripped verbose block declares the chain with the long flag, the compact block with
  the short one.
\<close>

theorem strip_verbose_counterexample:
  "strip_annotations (NatTable_Build iptables_Flags foo_table True)
     \<noteq> NatTable_Build iptables_Flags foo_table False"
proof -
  have "NatTable_Build iptables_Flags foo_table True =
      ''* nat'' @ [LF, LF] @ ''# Custom Chains:'' @ [LF] @ ''--new-chain FOO'' @ [LF, LF] @ ''COMMIT''"
    by (simp add: NatTable_Build_def TableBuilder_Build_def foo_lines Build_assemble_def
        NatTable_TableBuilder_name)
  then have "strip_annotations (NatTable_Build iptables_Flags foo_table True) =
      ''* nat'' @ [LF] @ ''--new-chain FOO'' @ [LF] @ ''COMMIT''"
    by (simp add: strip_annotations_def content_lines_def is_comment_def LF_def)
  moreover have "NatTable_Build iptables_Flags foo_table False =
      ''* nat'' @ [LF] @ ''-N FOO'' @ [LF] @ ''COMMIT''"
    by (simp add: NatTable_Build_def TableBuilder_Build_def foo_lines Build_assemble_def
        NatTable_TableBuilder_name)
  ultimately show ?thesis by simp
qed

section \<open>Build on a store\<close>

lemma extends_refl: "extends H H"
  by (simp add: extends_def)

lemma extends_cell_at:
  assumes "extends H h" "cell_at H a = Some c"
  shows "cell_at h a = Some c"
proof -
  from assms(2) have a: "a < length H" and c: "c = H ! a"
    by (simp_all add: cell_at_def split: if_splits)
  from assms(1) have len: "length H \<le> length h" and tk: "take (length H) h = H"
    by (simp_all add: extends_def)
  from a have "take (length H) h ! a = h ! a" by simp
  with tk c have "c = h ! a" by simp
  with a len show ?thesis by (simp add: cell_at_def)
qed

lemma extends_chain_at:
  "extends H h \<Longrightarrow> chain_at H p = Some c \<Longrightarrow> chain_at h p = Some c"
  by (auto simp: chain_at_def split: option.splits cell.splits dest: extends_cell_at)

lemma extends_pointer_at:
  "extends H h \<Longrightarrow> pointer_at H s i = Some p \<Longrightarrow> pointer_at h s i = Some p"
  by (auto simp: pointer_at_def split: option.splits cell.splits if_splits dest: extends_cell_at)

lemma extends_alloc: "extends H h \<Longrightarrow> extends H (h @ [c])"
  by (simp add: extends_def)

lemma extends_trans:
  assumes "extends H h" "extends h h'"
  shows "extends H h'"
proof -
  from assms have len: "length H \<le> length h" "length h \<le> length h'"
    and tk: "take (length H) h = H" "take (length h) h' = h"
    by (simp_all add: extends_def)
  have "take (length H) h' = take (length H) (take (length h) h')"
    using len(1) by (simp add: min_def)
  with tk have "take (length H) h' = H" by simp
  with len show ?thesis by (simp add: extends_def)
qed

lemma holds_valid: "holds h r lr \<Longrightarrow> fst r = Some b \<Longrightarrow> b < length h"
  by (auto simp: holds_def read_strings_def cell_at_def split: option.splits if_splits)

lemma cell_at_alloc: "b < length h \<Longrightarrow> cell_at (h @ [c]) b = cell_at h b"
  by (simp add: cell_at_def nth_append)

lemma holds_alloc:
  assumes "holds h r lr"
  shows "holds (h @ [c]) r lr \<and> apart r (Some (length h), k)"
proof (cases "fst r")
  case None
  with assms show ?thesis by (simp add: holds_def read_strings_def apart_def)
next
  case (Some b)
  with assms have b: "b < length h" by (simp add: holds_valid)
  then have "read_strings (h @ [c]) r = read_strings h r"
    using Some by (simp add: read_strings_def cell_at_alloc)
  with assms b Some show ?thesis
    by (simp add: holds_def apart_def)
qed

lemma holds_literal: "holds (h @ [Strings ls]) (Some (length h), length ls) ls"
  by (simp add: holds_def read_strings_def cell_at_def)

lemma local_alloc: "extends H h \<Longrightarrow> local_to H (Some (length h), k)"
  by (simp add: local_to_def extends_def)

lemma read_strings_SomeD:
  assumes "read_strings h s = Some ls" "fst s = Some a"
  shows "\<exists>arr. cell_at h a = Some (Strings arr) \<and> snd s \<le> length arr \<and> ls = take (snd s) arr"
proof (cases "cell_at h a")
  case None
  with assms show ?thesis by (simp add: read_strings_def)
next
  case (Some c)
  with assms show ?thesis
    by (cases c) (simp_all add: read_strings_def split: if_splits)
qed

lemma go_append_local:
  assumes ext: "extends H h" and loc: "local_to H s" and hs: "holds h s ls"
  obtains s' h' where "go_append slack h s xs = Some (s', h')" "extends H h'" "local_to H s'"
    "holds h' s' (ls @ xs)"
    "\<And>r lr. holds h r lr \<Longrightarrow> apart r s \<Longrightarrow> holds h' r lr"
    "\<And>r lr. holds h r lr \<Longrightarrow> apart r s \<Longrightarrow> apart r s'"
proof (cases "xs = []")
  case True
  show thesis
  proof (rule that)
    show "go_append slack h s xs = Some (s, h)"
      using True by (simp add: go_append_def)
    show "holds h s (ls @ xs)" using hs True by simp
  qed (use ext loc in simp_all)
next
  case xs: False
  show thesis
  proof (cases "fst s")
    case None
    with hs have ls: "ls = []" by (simp add: holds_def read_strings_def)
    let ?c = "Strings (xs @ replicate (slack 0 (length xs)) [])"
    show thesis
    proof (rule that)
      show "go_append slack h s xs = Some ((Some (length h), length xs), h @ [?c])"
        using xs None by (simp add: go_append_def alloc_def)
      show "extends H (h @ [?c])"
        using ext by (rule extends_alloc)
      show "local_to H (Some (length h), length xs)"
        using ext by (rule local_alloc)
      show "holds (h @ [?c]) (Some (length h), length xs) (ls @ xs)"
        by (simp add: holds_def read_strings_def cell_at_def ls)
      show "holds (h @ [?c]) r lr" if "holds h r lr" for r lr
        using holds_alloc [OF that] by simp
      show "apart r (Some (length h), length xs)" if "holds h r lr" for r lr
        using holds_alloc [OF that] by simp
    qed
  next
    case (Some a)
    from hs have rs: "read_strings h s = Some ls" and len: "snd s = length ls"
      by (simp_all add: holds_def)
    from read_strings_SomeD [OF rs Some] obtain arr where
      arr: "cell_at h a = Some (Strings arr)" "snd s \<le> length arr" "ls = take (snd s) arr"
      by blast
    from arr(1) have a: "a < length h" by (simp add: cell_at_def split: if_splits)
    note tk = arr(3) [symmetric]
    from len have L: "length ls = snd s" by simp
    from loc Some have Ha: "length H \<le> a" by (simp add: local_to_def)
    show thesis
    proof (cases "snd s + length xs \<le> length arr")
      case True
      let ?arr = "take (snd s) arr @ xs @ drop (snd s + length xs) arr"
      let ?h = "h[a := Strings ?arr]"
      have others: "read_strings ?h r = read_strings h r \<and> apart r (Some a, snd s + length xs)"
        if r2: "apart r s" for r
      proof (cases "fst r")
        case None
        then show ?thesis by (simp add: read_strings_def apart_def)
      next
        case r: (Some b)
        with r2 Some have ba: "b \<noteq> a" by (simp add: apart_def)
        then have "cell_at ?h b = cell_at h b" by (simp add: cell_at_def)
        then have "read_strings ?h r = read_strings h r"
          using r by (simp add: read_strings_def)
        with r ba show ?thesis
          by (simp add: apart_def)
      qed
      show thesis
      proof (rule that)
        show "go_append slack h s xs = Some ((Some a, snd s + length xs), ?h)"
          using xs Some arr(1,2) True by (simp add: go_append_def)
        show "extends H ?h"
          using ext Ha by (simp add: extends_def)
        show "local_to H (Some a, snd s + length xs)"
          using Ha by (simp add: local_to_def)
        have "read_strings ?h (Some a, snd s + length xs) = Some (take (snd s) arr @ xs)"
          using a arr(2) True by (simp add: read_strings_def cell_at_def)
        then show "holds ?h (Some a, snd s + length xs) (ls @ xs)"
          using tk L by (simp add: holds_def)
        show "holds ?h r lr" if "holds h r lr" "apart r s" for r lr
          using others [OF that(2)] that(1) by (simp add: holds_def)
        show "apart r (Some a, snd s + length xs)" if "holds h r lr" "apart r s" for r lr
          using others [OF that(2)] by simp
      qed
    next
      case False
      let ?c = "Strings (take (snd s) arr @ xs @ replicate (slack (length arr) (snd s + length xs)) [])"
      show thesis
      proof (rule that)
        show "go_append slack h s xs = Some ((Some (length h), snd s + length xs), h @ [?c])"
          using xs Some arr(1,2) False by (simp add: go_append_def alloc_def)
        show "extends H (h @ [?c])"
          using ext by (rule extends_alloc)
        show "local_to H (Some (length h), snd s + length xs)"
          using ext by (rule local_alloc)
        show "holds (h @ [?c]) (Some (length h), snd s + length xs) (ls @ xs)"
          using arr(2) tk L by (simp add: holds_def read_strings_def cell_at_def)
        show "holds (h @ [?c]) r lr" if "holds h r lr" for r lr
          using holds_alloc [OF that] by simp
        show "apart r (Some (length h), snd s + length xs)" if "holds h r lr" for r lr
          using holds_alloc [OF that] by simp
      qed
    qed
  qed
qed

lemma apart_sym: "apart r s \<Longrightarrow> apart s r"
  by (auto simp: apart_def)

lemma apart_nil: "apart (None, k) s"
  by (simp add: apart_def)

lemma holds_nil: "holds h (None, 0) []"
  by (simp add: holds_def read_strings_def)

lemma local_nil: "local_to H (None, k)"
  by (simp add: local_to_def)

lemma chain_of_step:
  assumes "extends H h" "chain_of H cs i = Some c"
  obtains p where "pointer_at h cs i = Some p" "chain_at h p = Some c"
proof -
  from assms(2) obtain p where p: "pointer_at H cs i = Some p" "chain_at H p = Some c"
    by (cases "pointer_at H cs i") (simp_all add: chain_of_def)
  from p(1) have "pointer_at h cs i = Some p" using assms(1) extends_pointer_at by blast
  moreover from p(2) have "chain_at h p = Some c" using assms(1) extends_chain_at by blast
  ultimately show thesis by (rule that)
qed

lemma chains_loop_local:
  assumes "extends H h" "local_to H rl" "holds h rl ls"
    and "\<forall>i \<in> set is. chain_of H cs i = Some (C ! i)"
  shows "\<exists>rl' h'. chains_loop_st slack verbose cs is (rl, h) = Some (rl', h')
           \<and> extends H h' \<and> local_to H rl'
           \<and> holds h' rl' (ls @ concat (map (\<lambda>i. ChainBuilder_Build (C ! i) verbose) is))"
  using assms
proof (induction "is" arbitrary: rl h ls)
  case Nil
  then show ?case by simp
next
  case (Cons i "is")
  from Cons.prems(4) have ci: "chain_of H cs i = Some (C ! i)" by simp
  obtain p where p: "pointer_at h cs i = Some p" "chain_at h p = Some (C ! i)"
    by (rule chain_of_step [OF Cons.prems(1) ci]) (rule that)
  obtain rl1 h1 where step:
    "go_append slack h rl (ChainBuilder_Build (C ! i) verbose) = Some (rl1, h1)"
    "extends H h1" "local_to H rl1" "holds h1 rl1 (ls @ ChainBuilder_Build (C ! i) verbose)"
    by (rule go_append_local [OF Cons.prems(1,2,3)]) (rule that)
  from Cons.prems(4) have rest: "\<forall>i \<in> set is. chain_of H cs i = Some (C ! i)" by simp
  from Cons.IH [OF step(2,3,4) rest] obtain rl' h' where
    "chains_loop_st slack verbose cs is (rl1, h1) = Some (rl', h')"
    "extends H h'" "local_to H rl'"
    "holds h' rl' ((ls @ ChainBuilder_Build (C ! i) verbose)
       @ concat (map (\<lambda>i. ChainBuilder_Build (C ! i) verbose) is))"
    by blast
  then show ?case
    using p step(1) by simp
qed

lemma newChains_loop_local:
  assumes "extends H h" "local_to H ncl" "local_to H rl" "holds h ncl ds" "holds h rl ls"
    and "apart ncl rl"
    and "\<forall>i \<in> set is. chain_of H cs i = Some (C ! i)"
  shows "\<exists>ncl' rl' h'. newChains_loop_st Flags slack verbose cs is (ncl, rl, h) = Some (ncl', rl', h')
           \<and> extends H h' \<and> local_to H ncl' \<and> local_to H rl'
           \<and> holds h' ncl' (ds @ map (\<lambda>i. flag_index Flags ''new-chain'' verbose @ '' ''
                                          @ ChainBuilder_String (C ! i)) is)
           \<and> holds h' rl' (ls @ concat (map (\<lambda>i. ChainBuilder_Build (C ! i) verbose) is))
           \<and> apart ncl' rl'"
  using assms
proof (induction "is" arbitrary: ncl rl h ds ls)
  case Nil
  then show ?case by simp
next
  case (Cons i "is")
  let ?d = "flag_index Flags ''new-chain'' verbose @ '' '' @ ChainBuilder_String (C ! i)"
  let ?b = "ChainBuilder_Build (C ! i) verbose"
  from Cons.prems(7) have ci: "chain_of H cs i = Some (C ! i)" by simp
  obtain p where p: "pointer_at h cs i = Some p" "chain_at h p = Some (C ! i)"
    by (rule chain_of_step [OF Cons.prems(1) ci]) (rule that)
  obtain ncl1 h1 where s1:
    "go_append slack h ncl [?d] = Some (ncl1, h1)"
    "extends H h1" "local_to H ncl1" "holds h1 ncl1 (ds @ [?d])"
    "\<And>r lr. holds h r lr \<Longrightarrow> apart r ncl \<Longrightarrow> holds h1 r lr"
    "\<And>r lr. holds h r lr \<Longrightarrow> apart r ncl \<Longrightarrow> apart r ncl1"
    by (rule go_append_local [OF Cons.prems(1,2,4)]) (rule that)
  from Cons.prems(6) have a1: "apart rl ncl" by (rule apart_sym)
  have rl1: "holds h1 rl ls" using s1(5) [OF Cons.prems(5) a1] .
  have a2: "apart rl ncl1" using s1(6) [OF Cons.prems(5) a1] .
  obtain rl2 h2 where s2:
    "go_append slack h1 rl ?b = Some (rl2, h2)"
    "extends H h2" "local_to H rl2" "holds h2 rl2 (ls @ ?b)"
    "\<And>r lr. holds h1 r lr \<Longrightarrow> apart r rl \<Longrightarrow> holds h2 r lr"
    "\<And>r lr. holds h1 r lr \<Longrightarrow> apart r rl \<Longrightarrow> apart r rl2"
    by (rule go_append_local [OF s1(2) Cons.prems(3) rl1]) (rule that)
  from a2 have a3: "apart ncl1 rl" by (rule apart_sym)
  have ncl2: "holds h2 ncl1 (ds @ [?d])" using s2(5) [OF s1(4) a3] .
  have a4: "apart ncl1 rl2" using s2(6) [OF s1(4) a3] .
  from Cons.prems(7) have rest: "\<forall>i \<in> set is. chain_of H cs i = Some (C ! i)" by simp
  from Cons.IH [OF s2(2) s1(3) s2(3) ncl2 s2(4) a4 rest] obtain ncl' rl' h' where
    "newChains_loop_st Flags slack verbose cs is (ncl1, rl2, h2) = Some (ncl', rl', h')"
    "extends H h'" "local_to H ncl'" "local_to H rl'"
    "holds h' ncl' ((ds @ [?d]) @ map (\<lambda>i. flag_index Flags ''new-chain'' verbose @ '' ''
                                          @ ChainBuilder_String (C ! i)) is)"
    "holds h' rl' ((ls @ ?b) @ concat (map (\<lambda>i. ChainBuilder_Build (C ! i) verbose) is))"
    "apart ncl' rl'"
    by blast
  then show ?case
    using p s1(1) s2(1) by simp
qed

lemma go_append_if:
  "(if c then go_append slack h s [x] else Some (s, h)) = go_append slack h s (if c then [x] else [])"
  by (simp add: go_append_def)

lemma prepend_local:
  assumes ext: "extends H h" and hs: "holds h s ls"
  obtains s' h' where "prepend_st slack h title s = Some (s', h')" "extends H h'" "local_to H s'"
    "holds h' s' (title # ls)"
    "\<And>r lr. holds h r lr \<Longrightarrow> holds h' r lr"
    "\<And>r lr. holds h r lr \<Longrightarrow> apart r s'"
proof -
  let ?h = "h @ [Strings [title]]"
  let ?lit = "(Some (length h), 1 :: nat)"
  have e1: "extends H ?h" using ext by (rule extends_alloc)
  have l1: "local_to H ?lit" using ext by (rule local_alloc)
  have h1: "holds ?h ?lit [title]" using holds_literal [of h "[title]"] by simp
  obtain s' h' where app:
    "go_append slack ?h ?lit ls = Some (s', h')" "extends H h'" "local_to H s'"
    "holds h' s' ([title] @ ls)"
    "\<And>r lr. holds ?h r lr \<Longrightarrow> apart r ?lit \<Longrightarrow> holds h' r lr"
    "\<And>r lr. holds ?h r lr \<Longrightarrow> apart r ?lit \<Longrightarrow> apart r s'"
    by (rule go_append_local [OF e1 l1 h1]) (rule that)
  show thesis
  proof (rule that)
    from hs have "read_strings h s = Some ls" by (simp add: holds_def)
    then show "prepend_st slack h title s = Some (s', h')"
      using app(1) by (simp add: prepend_st_def alloc_def)
    show "extends H h'" by fact
    show "local_to H s'" by fact
    show "holds h' s' (title # ls)" using app(4) by simp
    show "holds h' r lr" if "holds h r lr" for r lr
      using holds_alloc [OF that, of "Strings [title]" 1] app(5) by blast
    show "apart r s'" if "holds h r lr" for r lr
      using holds_alloc [OF that, of "Strings [title]" 1] app(6) by blast
  qed
qed

lemma prepend_if_local:
  assumes ext: "extends H h" and loc: "local_to H s" and hs: "holds h s ls"
  obtains s' h' where
    "(if c then prepend_st slack h title s else Some (s, h)) = Some (s', h')"
    "extends H h'" "local_to H s'"
    "holds h' s' (if c then title # ls else ls)"
    "\<And>r lr. holds h r lr \<Longrightarrow> apart r s \<Longrightarrow> holds h' r lr"
    "\<And>r lr. holds h r lr \<Longrightarrow> apart r s \<Longrightarrow> apart r s'"
proof (cases c)
  case True
  obtain s' h' where p: "prepend_st slack h title s = Some (s', h')" "extends H h'"
    "local_to H s'" "holds h' s' (title # ls)"
    "\<And>r lr. holds h r lr \<Longrightarrow> holds h' r lr"
    "\<And>r lr. holds h r lr \<Longrightarrow> apart r s'"
    by (rule prepend_local [OF ext hs]) (rule that)
  show thesis
  proof (rule that)
    show "(if c then prepend_st slack h title s else Some (s, h)) = Some (s', h')"
      using True p(1) by simp
    show "holds h' s' (if c then title # ls else ls)" using True p(4) by simp
    show "holds h' r lr" if "holds h r lr" for r lr using p(5) that .
    show "apart r s'" if "holds h r lr" for r lr using p(6) that .
  qed fact+
next
  case False
  show thesis
  proof (rule that)
    show "(if c then prepend_st slack h title s else Some (s, h)) = Some (s, h)"
      using False by simp
    show "holds h s (if c then title # ls else ls)" using False hs by simp
  qed (use ext loc in simp_all)
qed

lemma map_nth_chain: "map (\<lambda>i. f (C ! i)) [0..<length C] = map f C"
proof -
  have "map (\<lambda>i. f (C ! i)) [0..<length C] = map f (map (\<lambda>i. C ! i) [0..<length C])"
    by simp
  then show ?thesis by (simp only: map_nth)
qed

lemma holds_len: "holds h s ls \<Longrightarrow> snd s = length ls"
  by (simp add: holds_def)

lemma holds_read: "holds h s ls \<Longrightarrow> read_strings h s = Some ls"
  by (simp add: holds_def)

lemma TableBuilder_Build_st_local:
  assumes C: "snd chains_sl = length C" "\<forall>i < length C. chain_of H chains_sl i = Some (C ! i)"
    and N: "snd newChains_sl = length N" "\<forall>i < length N. chain_of H newChains_sl i = Some (N ! i)"
  shows "\<exists>h'. TableBuilder_Build_st Flags slack H tname newChains_sl chains_sl verbose =
           Some (TableBuilder_Build Flags \<lparr>tb_name = tname, tb_newChains = N, tb_chains = C\<rparr> verbose, h')
         \<and> extends H h'"
proof -
  define D where "D = map (\<lambda>c. flag_index Flags ''new-chain'' verbose @ '' '' @ ChainBuilder_String c) N"
  define R where "R = concat (map (\<lambda>c. ChainBuilder_Build c verbose) (C @ N))"
  define D' where "D' = (if verbose \<and> 0 < length D then ''# Custom Chains:'' # D else D)"
  define R' where "R' = (if verbose \<and> 0 < length R then ''# Rules:'' # R else R)"
  define JD where "JD = strings_Join D' [LF]"
  define JR where "JR = strings_Join R' [LF]"
  have Cset: "\<forall>i \<in> set [0..<snd chains_sl]. chain_of H chains_sl i = Some (C ! i)"
    using C by simp
  have Nset: "\<forall>i \<in> set [0..<snd newChains_sl]. chain_of H newChains_sl i = Some (N ! i)"
    using N by simp
  \<comment> \<open>first loop\<close>
  from chains_loop_local [OF extends_refl local_nil holds_nil Cset]
  obtain rl0 h1 where s1:
    "chains_loop_st slack verbose chains_sl [0..<snd chains_sl] ((None, 0), H) = Some (rl0, h1)"
    "extends H h1" "local_to H rl0"
    "holds h1 rl0 ([] @ concat (map (\<lambda>i. ChainBuilder_Build (C ! i) verbose) [0..<snd chains_sl]))"
    by blast
  \<comment> \<open>second loop\<close>
  from newChains_loop_local [OF s1(2) local_nil s1(3) holds_nil s1(4) apart_nil Nset]
  obtain ncl1 rl1 h2 where s2:
    "newChains_loop_st Flags slack verbose newChains_sl [0..<snd newChains_sl]
       ((None, 0), rl0, h1) = Some (ncl1, rl1, h2)"
    "extends H h2" "local_to H ncl1" "local_to H rl1"
    "holds h2 ncl1 ([] @ map (\<lambda>i. flag_index Flags ''new-chain'' verbose @ '' ''
                                          @ ChainBuilder_String (N ! i)) [0..<snd newChains_sl])"
    "holds h2 rl1 (([] @ concat (map (\<lambda>i. ChainBuilder_Build (C ! i) verbose) [0..<snd chains_sl]))
       @ concat (map (\<lambda>i. ChainBuilder_Build (N ! i) verbose) [0..<snd newChains_sl]))"
    "apart ncl1 rl1"
    by blast
  note m1 = map_nth_chain [of "\<lambda>c. flag_index Flags ''new-chain'' verbose @ '' '' @ ChainBuilder_String c" N]
  note m2 = map_nth_chain [of "\<lambda>c. ChainBuilder_Build c verbose" C]
  note m3 = map_nth_chain [of "\<lambda>c. ChainBuilder_Build c verbose" N]
  have hD: "holds h2 ncl1 D"
    using s2(5) unfolding N(1) m1 D_def by simp
  have hR: "holds h2 rl1 R"
    using s2(6) unfolding N(1) C(1) m2 m3 R_def by simp
  \<comment> \<open>comment lines\<close>
  obtain ncl2 h3 where s3:
    "(if verbose \<and> 0 < snd ncl1 then prepend_st slack h2 ''# Custom Chains:'' ncl1
      else Some (ncl1, h2)) = Some (ncl2, h3)"
    "extends H h3" "local_to H ncl2"
    "holds h3 ncl2 (if verbose \<and> 0 < snd ncl1 then ''# Custom Chains:'' # D else D)"
    "\<And>r lr. holds h2 r lr \<Longrightarrow> apart r ncl1 \<Longrightarrow> holds h3 r lr"
    "\<And>r lr. holds h2 r lr \<Longrightarrow> apart r ncl1 \<Longrightarrow> apart r ncl2"
    by (rule prepend_if_local [OF s2(2,3) hD]) (rule that)
  have hD': "holds h3 ncl2 D'"
    using s3(4) holds_len [OF hD] by (simp add: D'_def)
  have a1: "apart rl1 ncl1" using s2(7) by (rule apart_sym)
  have hR3: "holds h3 rl1 R" using s3(5) [OF hR a1] .
  have a2: "apart ncl2 rl1" using s3(6) [OF hR a1] by (rule apart_sym)
  obtain rl2 h4 where s4:
    "(if verbose \<and> 0 < snd rl1 then prepend_st slack h3 ''# Rules:'' rl1
      else Some (rl1, h3)) = Some (rl2, h4)"
    "extends H h4" "local_to H rl2"
    "holds h4 rl2 (if verbose \<and> 0 < snd rl1 then ''# Rules:'' # R else R)"
    "\<And>r lr. holds h3 r lr \<Longrightarrow> apart r rl1 \<Longrightarrow> holds h4 r lr"
    "\<And>r lr. holds h3 r lr \<Longrightarrow> apart r rl1 \<Longrightarrow> apart r rl2"
    by (rule prepend_if_local [OF s3(2) s2(4) hR3]) (rule that)
  have hR': "holds h4 rl2 R'"
    using s4(4) holds_len [OF hR3] by (simp add: R'_def)
  have hD4: "holds h4 ncl2 D'" using s4(5) [OF hD' a2] .
  \<comment> \<open>the list of segments\<close>
  let ?h5 = "h4 @ [Strings [''* '' @ tname]]"
  let ?lines0 = "(Some (length h4), 1 :: nat)"
  have e5: "extends H ?h5" using s4(2) by (rule extends_alloc)
  have l5: "local_to H ?lines0" using s4(2) by (rule local_alloc)
  have h5: "holds ?h5 ?lines0 [''* '' @ tname]"
    using holds_literal [of h4 "[''* '' @ tname]"] by simp
  have hD5: "holds ?h5 ncl2 D'" "apart ncl2 ?lines0"
    using holds_alloc [OF hD4, of "Strings [''* '' @ tname]" 1] by simp_all
  have hR5: "holds ?h5 rl2 R'" "apart rl2 ?lines0"
    using holds_alloc [OF hR', of "Strings [''* '' @ tname]" 1] by simp_all
  obtain lines1 h6 where s6:
    "go_append slack ?h5 ?lines0 (if JD \<noteq> [] then [JD] else []) = Some (lines1, h6)"
    "extends H h6" "local_to H lines1"
    "holds h6 lines1 ([''* '' @ tname] @ (if JD \<noteq> [] then [JD] else []))"
    "\<And>r lr. holds ?h5 r lr \<Longrightarrow> apart r ?lines0 \<Longrightarrow> holds h6 r lr"
    "\<And>r lr. holds ?h5 r lr \<Longrightarrow> apart r ?lines0 \<Longrightarrow> apart r lines1"
    by (rule go_append_local [OF e5 l5 h5]) (rule that)
  have hR6: "holds h6 rl2 R'" using s6(5) [OF hR5] .
  obtain lines2 h7 where s7:
    "go_append slack h6 lines1 (if JR \<noteq> [] then [JR] else []) = Some (lines2, h7)"
    "extends H h7" "local_to H lines2"
    "holds h7 lines2 (([''* '' @ tname] @ (if JD \<noteq> [] then [JD] else []))
       @ (if JR \<noteq> [] then [JR] else []))"
    by (rule go_append_local [OF s6(2,3,4)]) (rule that)
  obtain lines3 h8 where s8:
    "go_append slack h7 lines2 [''COMMIT''] = Some (lines3, h8)"
    "extends H h8"
    "holds h8 lines3 ((([''* '' @ tname] @ (if JD \<noteq> [] then [JD] else []))
       @ (if JR \<noteq> [] then [JR] else [])) @ [''COMMIT''])"
    by (rule go_append_local [OF s7(2,3,4)]) (rule that)
  note reads = holds_read [OF hD5(1)] holds_read [OF hR6] holds_read [OF s8(3)]
  have run: "TableBuilder_Build_st Flags slack H tname newChains_sl chains_sl verbose =
      Some (if verbose
            then strings_Join ((([''* '' @ tname] @ (if JD \<noteq> [] then [JD] else []))
                   @ (if JR \<noteq> [] then [JR] else [])) @ [''COMMIT'']) [LF, LF]
            else strings_Join ((([''* '' @ tname] @ (if JD \<noteq> [] then [JD] else []))
                   @ (if JR \<noteq> [] then [JR] else [])) @ [''COMMIT'']) [LF], h8)"
    unfolding TableBuilder_Build_st_def s1(1) s2(1) s3(1) s4(1) alloc_def go_append_if
      Option.bind.bind_lunit prod.case reads JD_def [symmetric] JR_def [symmetric]
      s6(1) s7(1) s8(1)
    by (rule refl)
  have lines: "Build_lines Flags \<lparr>tb_name = tname, tb_newChains = N, tb_chains = C\<rparr> verbose = (D, R)"
    by (simp add: Build_lines_eq D_def R_def)
  have "TableBuilder_Build Flags \<lparr>tb_name = tname, tb_newChains = N, tb_chains = C\<rparr> verbose =
      (if verbose
            then strings_Join ((([''* '' @ tname] @ (if JD \<noteq> [] then [JD] else []))
                   @ (if JR \<noteq> [] then [JR] else [])) @ [''COMMIT'']) [LF, LF]
            else strings_Join ((([''* '' @ tname] @ (if JD \<noteq> [] then [JD] else []))
                   @ (if JR \<noteq> [] then [JR] else [])) @ [''COMMIT'']) [LF])"
    by (simp add: TableBuilder_Build_def lines Build_assemble_def Let_def JD_def JR_def
        D'_def R'_def)
  with run s8(2) show ?thesis by simp
qed

lemma those_nth:
  "those xs = Some ys \<Longrightarrow> length ys = length xs \<and> (\<forall>i < length xs. xs ! i = Some (ys ! i))"
proof (induction xs arbitrary: ys)
  case Nil
  then show ?case by simp
next
  case (Cons x xs)
  then obtain y ys' where y: "x = Some y" "those xs = Some ys'" "ys = y # ys'"
    by (cases x; cases "those xs") simp_all
  from Cons.IH [OF y(2)] have "length ys' = length xs" "\<forall>i < length xs. xs ! i = Some (ys' ! i)"
    by simp_all
  with y show ?case by (simp add: nth_Cons')
qed

lemma those_eq_SomeI:
  "length ys = length xs \<Longrightarrow> \<forall>i < length xs. xs ! i = Some (ys ! i) \<Longrightarrow> those xs = Some ys"
proof (induction xs arbitrary: ys)
  case Nil
  then show ?case by simp
next
  case (Cons x xs)
  then obtain y ys' where ys: "ys = y # ys'" by (cases ys) simp_all
  with Cons.prems have "x = Some y" "length ys' = length xs" "\<forall>i < length xs. xs ! i = Some (ys' ! i)"
    by fastforce+
  with Cons.IH [of ys'] ys show ?case by simp
qed

lemma read_chains_nth:
  assumes "read_chains h cs = Some C"
  shows "snd cs = length C" "\<forall>i < length C. chain_of h cs i = Some (C ! i)"
proof -
  from those_nth [OF assms [unfolded read_chains_def]]
  have len: "length C = snd cs" and nth: "\<forall>i < snd cs. chain_of h cs i = Some (C ! i)"
    by simp_all
  from len show "snd cs = length C" by simp
  from len nth show "\<forall>i < length C. chain_of h cs i = Some (C ! i)" by simp
qed

lemma extends_chain_of:
  assumes "extends H h" "chain_of H cs i = Some c"
  shows "chain_of h cs i = Some c"
proof -
  obtain p where "pointer_at h cs i = Some p" "chain_at h p = Some c"
    by (rule chain_of_step [OF assms]) (rule that)
  then show ?thesis by (simp add: chain_of_def)
qed

lemma extends_read_chains:
  assumes "extends H h" "read_chains H cs = Some C"
  shows "read_chains h cs = Some C"
proof -
  note n = read_chains_nth [OF assms(2)]
  have "\<forall>i < length C. chain_of h cs i = Some (C ! i)"
    using n(2) extends_chain_of [OF assms(1)] by blast
  then show ?thesis
    unfolding read_chains_def using n(1) by (intro those_eq_SomeI) simp_all
qed

lemma abs_table_SomeD:
  assumes "abs_table h t = Some T"
  obtains a b c d cs where "cell_at h t = Some (TableObj a b c d cs)"
    "chain_at h a = Some (nt_prerouting T)" "chain_at h b = Some (nt_input T)"
    "chain_at h c = Some (nt_output T)" "chain_at h d = Some (nt_postrouting T)"
    "read_chains h cs = Some (nt_chains T)"
proof (cases "cell_at h t")
  case None
  with assms show thesis by (simp add: abs_table_def)
next
  case (Some x)
  show thesis
  proof (cases x)
    case (TableObj a b c d cs)
    with assms Some have
      "do { c1 \<leftarrow> chain_at h a; c2 \<leftarrow> chain_at h b; c3 \<leftarrow> chain_at h c; c4 \<leftarrow> chain_at h d;
            cs \<leftarrow> read_chains h cs;
            Some \<lparr>nt_prerouting = c1, nt_input = c2, nt_output = c3, nt_postrouting = c4,
                  nt_chains = cs\<rparr> } = Some T"
      by (simp add: abs_table_def)
    then obtain c1 c2 c3 c4 N where
      "chain_at h a = Some c1" "chain_at h b = Some c2" "chain_at h c = Some c3"
      "chain_at h d = Some c4" "read_chains h cs = Some N"
      "T = \<lparr>nt_prerouting = c1, nt_input = c2, nt_output = c3, nt_postrouting = c4, nt_chains = N\<rparr>"
      by (auto simp: bind_eq_Some_conv)
    with Some TableObj show thesis by (intro that [of a b c d cs]) simp_all
  qed (use assms Some in \<open>simp_all add: abs_table_def\<close>)
qed

lemma extends_abs_table:
  assumes "extends H h" "abs_table H t = Some T"
  shows "abs_table h t = Some T"
proof -
  obtain a b c d cs where T: "cell_at H t = Some (TableObj a b c d cs)"
    "chain_at H a = Some (nt_prerouting T)" "chain_at H b = Some (nt_input T)"
    "chain_at H c = Some (nt_output T)" "chain_at H d = Some (nt_postrouting T)"
    "read_chains H cs = Some (nt_chains T)"
    by (rule abs_table_SomeD [OF assms(2)]) (rule that)
  note e = assms(1)
  show ?thesis
    by (simp add: abs_table_def extends_cell_at [OF e T(1)] extends_chain_at [OF e T(2)]
        extends_chain_at [OF e T(3)] extends_chain_at [OF e T(4)] extends_chain_at [OF e T(5)]
        extends_read_chains [OF e T(6)])
qed

lemma NatTable_Build_st_local:
  assumes "abs_table h t = Some T"
  shows "\<exists>h'. NatTable_Build_st Flags slack h t verbose = Some (NatTable_Build Flags T verbose, h')
           \<and> extends h h'"
proof -
  obtain a b c d cs where T: "cell_at h t = Some (TableObj a b c d cs)"
    "chain_at h a = Some (nt_prerouting T)" "chain_at h b = Some (nt_input T)"
    "chain_at h c = Some (nt_output T)" "chain_at h d = Some (nt_postrouting T)"
    "read_chains h cs = Some (nt_chains T)"
    by (rule abs_table_SomeD [OF assms]) (rule that)
  let ?H = "h @ [Pointers [a, b, c, d]]"
  let ?sl = "(Some (length h), 4 :: nat)"
  let ?C = "[nt_prerouting T, nt_input T, nt_output T, nt_postrouting T]"
  have e: "extends h ?H" using extends_refl by (rule extends_alloc)
  have ptr: "pointer_at ?H ?sl i = Some ([a, b, c, d] ! i)" if "i < 4" for i
    using that by (simp add: pointer_at_def cell_at_def)
  have ch: "chain_at ?H a = Some (?C ! 0)" "chain_at ?H b = Some (?C ! 1)"
    "chain_at ?H c = Some (?C ! 2)" "chain_at ?H d = Some (?C ! 3)"
    using T(2-5) extends_chain_at [OF e] by simp_all
  have C2: "\<forall>i < length ?C. chain_of ?H ?sl i = Some (?C ! i)"
  proof (intro allI impI)
    fix i assume "i < length ?C"
    then consider "i = 0" | "i = 1" | "i = 2" | "i = 3" by fastforce
    then show "chain_of ?H ?sl i = Some (?C ! i)"
      using ch by cases (simp_all add: chain_of_def ptr)
  qed
  have C1: "snd ?sl = length ?C" by simp
  note n = read_chains_nth [OF T(6)]
  have N2: "\<forall>i < length (nt_chains T). chain_of ?H cs i = Some (nt_chains T ! i)"
    using n(2) extends_chain_of [OF e] by blast
  from TableBuilder_Build_st_local [OF C1 C2 n(1) N2]
  obtain h' where run: "TableBuilder_Build_st Flags slack ?H ''nat'' cs ?sl verbose =
      Some (TableBuilder_Build Flags
              \<lparr>tb_name = ''nat'', tb_newChains = nt_chains T, tb_chains = ?C\<rparr> verbose, h')"
    and e': "extends ?H h'"
    by blast
  have "NatTable_Build_st Flags slack h t verbose = Some (NatTable_Build Flags T verbose, h')"
    using run by (simp add: NatTable_Build_st_def T(1) alloc_def NatTable_Build_def
        NatTable_TableBuilder_def)
  moreover have "extends h h'" using e e' by (rule extends_trans)
  ultimately show ?thesis by blast
qed

text \<open>
  C5. On a store that holds a table \<open>T\<close> at address \<open>t\<close>, a call of \<open>Build\<close>
  returns; its output is the value of the function \<open>NatTable_Build\<close> at the flag
  table, \<open>T\<close> and the mode flag, and nothing else; the store after the call keeps every
  cell it had before, so the table is still \<open>T\<close>; and a second call on that store
  returns the same output.
\<close>

theorem NatTable_Build_pure:
  assumes "abs_table h t = Some T"
  shows "\<exists>out h1 h2. NatTable_Build_st Flags slack h t verbose = Some (out, h1)
           \<and> out = NatTable_Build Flags T verbose
           \<and> extends h h1 \<and> abs_table h1 t = Some T
           \<and> NatTable_Build_st Flags slack h1 t verbose = Some (out, h2)"
proof -
  from NatTable_Build_st_local [OF assms] obtain h1 where
    1: "NatTable_Build_st Flags slack h t verbose = Some (NatTable_Build Flags T verbose, h1)"
    and e: "extends h h1"
    by blast
  have T1: "abs_table h1 t = Some T" using e assms by (rule extends_abs_table)
  from NatTable_Build_st_local [OF T1] obtain h2 where
    2: "NatTable_Build_st Flags slack h1 t verbose = Some (NatTable_Build Flags T verbose, h2)"
    by blast
  from 1 e T1 2 show ?thesis by blast
qed

lemma example_heap_table: "abs_table example_heap 6 = Some uniform_table"
  by (simp add: abs_table_def example_heap_def cell_at_def chain_at_def read_chains_def
      chain_of_def pointer_at_def uniform_table_def AddChain_def Nat_table_def)

text \<open>
  The theorem of C5 at the example store, in compact mode, with a runtime that gives a
  new array as much spare capacity as the length needed.
\<close>

theorem NatTable_Build_pure_witness:
  "abs_table example_heap 6 = Some uniform_table
   \<and> (\<exists>h1 h2. NatTable_Build_st iptables_Flags (\<lambda>c n. n) example_heap 6 False =
         Some (''* nat'' @ [LF] @ ''-N FOO'' @ [LF] @ ''-A OUTPUT -j FOO'' @ [LF]
               @ ''-A FOO -j RETURN'' @ [LF] @ ''COMMIT'', h1)
       \<and> extends example_heap h1 \<and> abs_table h1 6 = Some uniform_table
       \<and> NatTable_Build_st iptables_Flags (\<lambda>c n. n) h1 6 False =
         Some (''* nat'' @ [LF] @ ''-N FOO'' @ [LF] @ ''-A OUTPUT -j FOO'' @ [LF]
               @ ''-A FOO -j RETURN'' @ [LF] @ ''COMMIT'', h2))"
proof -
  have lines: "Build_lines iptables_Flags (NatTable_TableBuilder uniform_table) False =
      ([''-N FOO''], [''-A OUTPUT -j FOO'', ''-A FOO -j RETURN''])"
    by (simp add: Build_lines_eq NatTable_TableBuilder_def uniform_table_def AddChain_def
        Nat_table_def NewChain_def ChainBuilder_Build_def ChainBuilder_String_def
        flag_index_def iptables_Flags_def)
  have out: "NatTable_Build iptables_Flags uniform_table False =
      ''* nat'' @ [LF] @ ''-N FOO'' @ [LF] @ ''-A OUTPUT -j FOO'' @ [LF]
        @ ''-A FOO -j RETURN'' @ [LF] @ ''COMMIT''"
    by (simp add: NatTable_Build_def TableBuilder_Build_def lines Build_assemble_def
        NatTable_TableBuilder_name)
  from NatTable_Build_pure [OF example_heap_table, of iptables_Flags "\<lambda>c n. n" False]
  show ?thesis
    unfolding out using example_heap_table by blast
qed

section \<open>The map record\<close>

lemma sizeof_Cidr: "sizeof Cidr = 8"
  by (simp add: Cidr_def align_up_def)

text \<open>
  C9. Every category is an array of exactly \<open>MaxItemLen = 10\<close> items. A range is a
  4-byte address and a 1-byte prefix length, padded to 8 bytes. The record holds, in this
  order, the 2-byte status port (and 2 bytes of padding), the 10 excluded and the 10
  included outbound ranges, and four arrays of 10 2-byte ports: included inbound, included
  outbound, excluded inbound, excluded outbound; 244 bytes in all, as the comment in the
  source states.
\<close>

theorem PodConfig_layout:
  "MaxItemLen = 10
   \<and> layout 0 (struct_fields Cidr) =
       [(''Net'', Uint32, 0, 4), (''Mask'', Uint8, 4, 1), (''_'', Array 3 Uint8, 5, 3)]
   \<and> sizeof Cidr = 8
   \<and> layout 0 (struct_fields PodConfig) =
       [(''StatusPort'', Uint16, 0, 2),
        (''_'', Uint16, 2, 2),
        (''ExcludeOutRanges'', Array 10 Cidr, 4, 80),
        (''IncludeOutRanges'', Array 10 Cidr, 84, 80),
        (''IncludeInPorts'', Array 10 Uint16, 164, 20),
        (''IncludeOutPorts'', Array 10 Uint16, 184, 20),
        (''ExcludeInPorts'', Array 10 Uint16, 204, 20),
        (''ExcludeOutPorts'', Array 10 Uint16, 224, 20)]
   \<and> sizeof PodConfig = 244"
  by (simp add: PodConfig_def struct_fields_def MaxItemLen_def sizeof_Cidr align_up_def)
     (simp add: Cidr_def align_up_def)

section \<open>Running a program\<close>

text \<open>
  C8. When the command never started (its process state is nil) or exited with a
  nonzero code, \<open>run\<close> returns an error: the message with the exit code (\<open>-1\<close> for a
  command that never started) and the error of \<^verbatim>\<open>cmd.Run\<close>.
\<close>

theorem run_failure_returns_error:
  assumes "fst (exec_Run s (rt_world st) cmdToExec args (os_Environ s @ envVars)) = cmd"
    and "ProcessState cmd = None \<or> (\<exists>code. ProcessState cmd = Some code \<and> code \<noteq> 0)"
  shows "fst (run s cmdToExec args envVars st) =
           Some (''unexpected exit code: '' @ show_int (ExitCode (ProcessState cmd))
                 @ '', err: '' @ show_error (run_err cmd))"
  using assms by (auto simp: run_def Let_def ExitCode_def split: prod.splits)

lemma show_int_1: "show_int 1 = ''1''" "show_int (- 1) = ''-1''"
  by (simp_all add: show_int_def show_nat.simps)

text \<open>
  The theorem of C8 at a command that cannot be started and at a command that exits with
  code 1.
\<close>

theorem run_failure_returns_error_witness:
  "fst (run example_sys ''/opt/ebpf/mb_missing'' [''--verbose''] [] example_rt) =
     Some ''unexpected exit code: -1, err: no such file or directory''
   \<and> fst (run example_sys ''/opt/ebpf/mb_bind'' [''--verbose''] [] example_rt) =
     Some ''unexpected exit code: 1, err: exit status 1''"
proof -
  have missing:
    "fst (exec_Run example_sys (rt_world example_rt) ''/opt/ebpf/mb_missing'' [''--verbose'']
       (os_Environ example_sys @ [])) =
     \<lparr>ProcessState = None, run_err = Some ''no such file or directory'',
      to_stdout = [], to_stderr = []\<rparr>"
    by (simp add: example_sys_def)
  have bind:
    "fst (exec_Run example_sys (rt_world example_rt) ''/opt/ebpf/mb_bind'' [''--verbose'']
       (os_Environ example_sys @ [])) =
     \<lparr>ProcessState = Some 1, run_err = Some ''exit status 1'', to_stdout = [], to_stderr = []\<rparr>"
    by (simp add: example_sys_def)
  have "fst (run example_sys ''/opt/ebpf/mb_missing'' [''--verbose''] [] example_rt) =
      Some ''unexpected exit code: -1, err: no such file or directory''"
    using run_failure_returns_error [OF missing]
    by (simp add: ExitCode_def show_error_def show_int_1)
  moreover have "fst (run example_sys ''/opt/ebpf/mb_bind'' [''--verbose''] [] example_rt) =
      Some ''unexpected exit code: 1, err: exit status 1''"
    using run_failure_returns_error [OF bind]
    by (simp add: ExitCode_def show_error_def show_int_1)
  ultimately show ?thesis by blast
qed

section \<open>Loading the programs\<close>

lemma LoadAndAttach_body_attempt:
  "LoadAndAttach_body s cfg p (errs, st) =
     (errs @ failures [fst (attempt s cfg p st)], snd (attempt s cfg p st))"
  by (auto simp: LoadAndAttach_body_def attempt_def failures_def Let_def
      split: prod.splits sum.splits option.splits)

lemma fold_LoadAndAttach_body:
  "fold (LoadAndAttach_body s cfg) ps (errs, st) =
     (errs @ failures (fst (attempts s cfg ps st)), snd (attempts s cfg ps st))"
proof (induction ps arbitrary: errs st)
  case Nil
  then show ?case by (simp add: failures_def)
next
  case (Cons p ps)
  show ?case
    by (simp add: LoadAndAttach_body_attempt Cons.IH failures_def split: prod.splits)
qed

lemma length_attempts: "length (fst (attempts s cfg ps st)) = length ps"
  by (induction ps arbitrary: st) (simp_all add: case_prod_beta)

lemma failures_Nil_iff: "failures rs = [] \<longleftrightarrow> (\<forall>r \<in> set rs. r = None)"
  by (induction rs) (auto simp: failures_def split: option.splits)

text \<open>
  C7. The batch makes one attempt per program, in list order, each in the state the
  attempt before it left, whatever that attempt returned. It returns nil exactly when
  every attempt succeeded; otherwise it returns, with the state after the last attempt,
  one error whose message lists the message of every failed attempt.
\<close>

theorem LoadAndAttach_accumulates:
  "let (rs, st1) = attempts s cfg programs st
   in length rs = length programs
      \<and> LoadAndAttachEbpfPrograms s programs cfg st =
          (if \<forall>r \<in> set rs. r = None then None
           else Some (''loading and attaching bpf programs failed:'' @ [LF]
                      @ strings_Join (failures rs) [LF, TAB]),
           st1)"
  using length_attempts [of s cfg programs st]
  by (auto simp: LoadAndAttachEbpfPrograms_def fold_LoadAndAttach_body failures_Nil_iff
      split: prod.splits)

lemma example_run:
  "fst (run example_sys cmd [''--verbose''] [] st) =
     (if cmd = ''/opt/ebpf/mb_bind'' then Some ''unexpected exit code: 1, err: exit status 1''
      else if cmd = ''/opt/ebpf/mb_missing''
      then Some ''unexpected exit code: -1, err: no such file or directory''
      else None)"
  "rt_world (snd (run example_sys cmd [''--verbose''] [] st)) =
     rt_world st @ [(cmd, [''--verbose''])]"
  by (simp_all add: run_def example_sys_def Let_def ExitCode_def show_error_def show_int_1)

lemma example_attempt:
  "fst (attempt example_sys example_cfg (example_program n) st) =
     fst (run example_sys (''/opt/ebpf/'' @ n) [''--verbose''] [] st)"
  "rt_world (snd (attempt example_sys example_cfg (example_program n) st)) =
     rt_world st @ [(''/opt/ebpf/'' @ n, [''--verbose''])]"
  by (simp_all add: attempt_def example_program_def example_run(2))
     (simp_all add: example_sys_def example_cfg_def run_def Let_def)

lemma example_attempts:
  "fst (attempts example_sys example_cfg example_programs example_rt) =
     [None, Some ''unexpected exit code: 1, err: exit status 1'', None]"
  "rt_world (snd (attempts example_sys example_cfg example_programs example_rt)) =
     [(''/opt/ebpf/mb_connect'', [''--verbose'']), (''/opt/ebpf/mb_bind'', [''--verbose'']),
      (''/opt/ebpf/mb_sendmsg'', [''--verbose''])]"
  by (simp_all add: example_programs_def case_prod_beta example_attempt example_run example_rt_def)

text \<open>
  The theorem of C7 at three programs of which the second fails: the error reports the
  second program only, and all three commands were executed, in order.
\<close>

theorem LoadAndAttach_accumulates_witness:
  "fst (LoadAndAttachEbpfPrograms example_sys example_programs example_cfg example_rt) =
     Some (''loading and attaching bpf programs failed:'' @ [LF]
           @ ''unexpected exit code: 1, err: exit status 1'')
   \<and> rt_world (snd (LoadAndAttachEbpfPrograms example_sys example_programs example_cfg example_rt)) =
       [(''/opt/ebpf/mb_connect'', [''--verbose'']), (''/opt/ebpf/mb_bind'', [''--verbose'']),
        (''/opt/ebpf/mb_sendmsg'', [''--verbose''])]"
  using LoadAndAttach_accumulates [of example_sys example_cfg example_programs example_rt]
    example_attempts
  by (simp add: case_prod_beta failures_def)

section \<open>The BPF file system\<close>





end
